theory Spec2Isabelle
  imports Complex_Main "HOL-Library.Word" "HOL-Library.Product_Lexorder" "HOL-Library.Multiset"
begin

unbundle bit_operations_syntax

chapter \<open>The embedding of the program\<close>

section \<open>Python values\<close>

text \<open>
  A Python \<open>str\<close> is a sequence of Unicode code points and is modelled as a list of
  natural numbers (\<^typ>\<open>char\<close> would only cover bytes). Python integers are unbounded:
  \<^typ>\<open>int\<close>. Time stamps and MRU scores are Python floats, modelled as \<^typ>\<open>real\<close>;
  the program only adds, subtracts, negates and compares them.
\<close>

type_synonym pystr = "nat list"

text \<open>The exceptions that the modelled code can raise.\<close>

datatype error = ValueError | IndexError

text \<open>
  A Python \<open>dict\<close> keeps its keys in insertion order, and \<open>sorted(d.items())\<close> and
  \<open>max(d.items())\<close> observe that order. It is an association list with distinct keys:
  storing to a key that is present replaces the value in place, storing to a new key
  appends.
\<close>

type_synonym ('k, 'v) pydict = "('k \<times> 'v) list"

fun dict_set :: "('k, 'v) pydict \<Rightarrow> 'k \<Rightarrow> 'v \<Rightarrow> ('k, 'v) pydict" where
  "dict_set [] k v = [(k, v)]"
| "dict_set ((k', v') # d) k v = (if k' = k then (k, v) # d else (k', v') # dict_set d k v)"

definition dict_get :: "('k, 'v) pydict \<Rightarrow> 'k \<Rightarrow> 'v \<Rightarrow> 'v" where
  "dict_get d k dflt = (case map_of d k of Some v \<Rightarrow> v | None \<Rightarrow> dflt)"


text \<open>Python indexing \<open>xs[i]\<close>: negative indices count from the end, others raise.\<close>

definition py_nth :: "'a list \<Rightarrow> int \<Rightarrow> error + 'a" where
  "py_nth xs i =
     (let n = int (length xs); j = (if i < 0 then i + n else i)
      in if 0 \<le> j \<and> j < n then Inr (xs ! nat j) else Inl IndexError)"

section \<open>Python's string functions\<close>

text \<open>
  The classification of code points beyond ASCII comes from the Unicode character
  database of the Python runtime, which is not part of the repository; it is a
  parameter of the model. For ASCII code points the classification is fixed and written
  out below.
\<close>

record ucd =
  uni_space :: "nat \<Rightarrow> bool"  \<comment> \<open>\<open>ch.isspace()\<close>\<close>
  uni_decimal :: "nat \<Rightarrow> nat option"  \<comment> \<open>the value of a decimal digit, as \<open>int\<close> reads it\<close>
  uni_digit :: "nat \<Rightarrow> bool"  \<comment> \<open>\<open>ch.isdigit()\<close>\<close>
  uni_combining :: "nat \<Rightarrow> bool"  \<comment> \<open>\<open>unicodedata.combining(ch) != 0\<close>\<close>
  uni_powerline :: "nat \<Rightarrow> bool"  \<comment> \<open>\<open>"POWERLINE" in unicodedata.name(ch, "")\<close>\<close>
  uni_wide :: "nat \<Rightarrow> bool"  \<comment> \<open>\<open>unicodedata.east_asian_width(ch) in ("W", "F")\<close>\<close>

text \<open>A database that knows nothing beyond ASCII, for strings that are ASCII already.\<close>

definition ascii_ucd :: ucd where
  "ascii_ucd = \<lparr>uni_space = (\<lambda>_. False), uni_decimal = (\<lambda>_. None), uni_digit = (\<lambda>_. False),
     uni_combining = (\<lambda>_. False), uni_powerline = (\<lambda>_. False), uni_wide = (\<lambda>_. False)\<rparr>"

text \<open>
  \<open>str.isspace\<close> and \<open>str.strip()\<close>: the ASCII white space is TAB, LF, VT, FF, CR, the
  separators \<open>0x1c\<close> to \<open>0x1f\<close> and the blank.
\<close>

definition py_isspace :: "ucd \<Rightarrow> nat \<Rightarrow> bool" where
  "py_isspace u c =
     (if c < 128 then (9 \<le> c \<and> c \<le> 13) \<or> (28 \<le> c \<and> c \<le> 31) \<or> c = 32 else uni_space u c)"

definition py_strip :: "ucd \<Rightarrow> pystr \<Rightarrow> pystr" where
  "py_strip u s = rev (dropWhile (py_isspace u) (rev (dropWhile (py_isspace u) s)))"

text \<open>\<open>str.isdigit()\<close>: a non-empty string of digits.\<close>

definition py_isdigit_char :: "ucd \<Rightarrow> nat \<Rightarrow> bool" where
  "py_isdigit_char u c = (if c < 128 then 48 \<le> c \<and> c \<le> 57 else uni_digit u c)"

definition py_isdigit :: "ucd \<Rightarrow> pystr \<Rightarrow> bool" where
  "py_isdigit u s = (s \<noteq> [] \<and> list_all (py_isdigit_char u) s)"

text \<open>
  \<open>int(s)\<close> for a string: optional white space, an optional sign, decimal digits with
  single underscores between them, optional white space. Its white space is narrower
  than that of \<open>strip\<close> on ASCII (the separators \<open>0x1c\<close> to \<open>0x1f\<close> are not skipped).
  Anything else raises \<open>ValueError\<close>. (The limit on the number of digits that recent
  interpreters add is not modelled.)
\<close>

definition int_space :: "ucd \<Rightarrow> nat \<Rightarrow> bool" where
  "int_space u c = ((9 \<le> c \<and> c \<le> 13) \<or> c = 32 \<or> (128 \<le> c \<and> uni_space u c))"

definition decimal_of :: "ucd \<Rightarrow> nat \<Rightarrow> nat option" where
  "decimal_of u c =
     (if 48 \<le> c \<and> c \<le> 57 then Some (c - 48)
      else if 128 \<le> c then uni_decimal u c
      else None)"

fun int_body :: "ucd \<Rightarrow> nat \<Rightarrow> bool \<Rightarrow> pystr \<Rightarrow> nat option" where
  "int_body u acc after_digit [] = (if after_digit then Some acc else None)"
| "int_body u acc after_digit (c # cs) =
     (if c = 95 then (if after_digit then int_body u acc False cs else None)
      else (case decimal_of u c of
              Some d \<Rightarrow> int_body u (acc * 10 + d) True cs
            | None \<Rightarrow> None))"

definition py_int :: "ucd \<Rightarrow> pystr \<Rightarrow> error + int" where
  "py_int u s =
     (let s1 = dropWhile (int_space u) s;
          (sgn, s2) = (case s1 of
                         [] \<Rightarrow> (1, [])
                       | c # r \<Rightarrow> if c = 43 then (1, r) else if c = 45 then (- 1, r) else (1, s1));
          s3 = rev (dropWhile (int_space u) (rev s2))
      in case int_body u 0 False s3 of
           Some n \<Rightarrow> Inr (sgn * int n)
         | None \<Rightarrow> Inl ValueError)"

text \<open>\<open>s.split(sep)\<close> for a separator of one character: always at least one field.\<close>

fun py_split :: "nat \<Rightarrow> pystr \<Rightarrow> pystr list" where
  "py_split sep [] = [[]]"
| "py_split sep (c # cs) =
     (if c = sep then [] # py_split sep cs
      else (case py_split sep cs of
              f # fs \<Rightarrow> (c # f) # fs
            | [] \<Rightarrow> [[c]]))"

text \<open>The decimal rendering of an integer, as \<open>str(n)\<close> and an f-string produce it.\<close>

fun digits_of :: "nat \<Rightarrow> pystr" where
  "digits_of n = (if n < 10 then [48 + n] else digits_of (n div 10) @ [48 + n mod 10])"

declare digits_of.simps [simp del]

definition py_str_int :: "int \<Rightarrow> pystr" where
  "py_str_int i = (if i < 0 then 45 # digits_of (nat (- i)) else digits_of (nat i))"

section \<open>Modifier oracle: \<open>ctrl_is_down\<close> (tab_switcher.py)\<close>

text \<open>
  Python's \<open>&\<close> on negative operands is the two's-complement conjunction, which is what
  \<open>AND\<close> on \<^typ>\<open>int\<close> computes. A Python integer is truthy exactly when it is not 0.
\<close>

definition ctrl_is_down :: "int \<Rightarrow> int \<Rightarrow> bool" where
  "ctrl_is_down mods ctrl_mask =
     (if mods AND ctrl_mask \<noteq> 0 then True
      else if mods > 0 \<and> (mods - 1) AND 4 \<noteq> 0 then True
      else False)"

section \<open>Tabs and MRU reconciliation (tab_switcher.py)\<close>

text \<open>Class \<open>TabInfo\<close>; its field \<open>id\<close> is named \<open>tab_id\<close> here.\<close>

record TabInfo =
  tab_id :: int
  title :: pystr
  window_id :: int
  is_active :: bool
  last_focused :: "real option"

text \<open>
  \<open>_active_tab_id\<close>: the id of the first tab flagged active, else the id of the first tab,
  else \<open>None\<close>.
\<close>

fun first_active :: "TabInfo list \<Rightarrow> int option" where
  "first_active [] = None"
| "first_active (t # ts) = (if is_active t then Some (tab_id t) else first_active ts)"

definition active_tab_id :: "TabInfo list \<Rightarrow> int option" where
  "active_tab_id ts =
     (case first_active ts of
        Some i \<Rightarrow> Some i
      | None \<Rightarrow> (case ts of [] \<Rightarrow> None | t # _ \<Rightarrow> Some (tab_id t)))"

text \<open>
  \<open>_reconcile_mru\<close>. The dictionary comprehensions \<open>base_rank\<close> and \<open>by_id\<close> store the
  entries in list order, a later duplicate id overwriting an earlier one.
\<close>

definition base_rank_of :: "int list \<Rightarrow> (int, int) pydict" where
  "base_rank_of base_order =
     fold (\<lambda>(idx, tid) d. dict_set d tid (int idx)) (enumerate 0 base_order) []"

definition by_id_of :: "TabInfo list \<Rightarrow> (int, TabInfo) pydict" where
  "by_id_of base_tabs = fold (\<lambda>t d. dict_set d (tab_id t) t) base_tabs []"

text \<open>
  The sort key \<open>lambda kv: (-kv[1], base_rank.get(kv[0], 10**9))\<close>; Python compares the
  tuples lexicographically, which is the order on pairs of HOL-Library.Product_Lexorder.
\<close>

definition mru_key :: "(int, int) pydict \<Rightarrow> int \<times> real \<Rightarrow> real \<times> int" where
  "mru_key base_rank = (\<lambda>(k, v). (- v, dict_get base_rank k (10 ^ 9)))"

text \<open>\<open>[by_id[tid] for tid, _ in ordered if tid in by_id]\<close>\<close>

definition tabs_in_order :: "(int, TabInfo) pydict \<Rightarrow> (int \<times> real) list \<Rightarrow> TabInfo list" where
  "tabs_in_order by_id ordered =
     concat (map (\<lambda>(tid, _). case map_of by_id tid of Some t \<Rightarrow> [t] | None \<Rightarrow> []) ordered)"

text \<open>\<open>out[active_id] = max(out.get(active_id, 0.0), now)\<close> when there is an active id.\<close>

definition force_active :: "real \<Rightarrow> TabInfo list \<Rightarrow> (int, real) pydict \<Rightarrow> (int, real) pydict" where
  "force_active now ts out =
     (case active_tab_id ts of
        Some a \<Rightarrow> dict_set out a (max (dict_get out a 0) now)
      | None \<Rightarrow> out)"

text \<open>The scores taken from the host's \<open>last_focused\<close> time stamps (first branch).\<close>

definition focus_scores :: "TabInfo list \<Rightarrow> (int, real) pydict" where
  "focus_scores ts =
     fold (\<lambda>t d. dict_set d (tab_id t) (case last_focused t of Some x \<Rightarrow> x | None \<Rightarrow> 0)) ts []"

text \<open>
  The scores taken from the persisted map (second branch); one round of its loop is
  \<^verbatim>\<open>if tid in last_used: out[tid] = last_used[tid]\<close> followed by
  \<^verbatim>\<open>if tid not in out: out[tid] = 0.0\<close>. The persisted map is only read through
  \<open>in\<close> and \<open>[]\<close>, that is through \<^const>\<open>map_of\<close>.
\<close>

definition cache_step :: "(int, real) pydict \<Rightarrow> int \<Rightarrow> (int, real) pydict \<Rightarrow> (int, real) pydict" where
  "cache_step lu tid d =
     (let d1 = (case map_of lu tid of Some v \<Rightarrow> dict_set d tid v | None \<Rightarrow> d)
      in if map_of d1 tid = None then dict_set d1 tid 0 else d1)"

definition cache_scores :: "(int, real) pydict \<Rightarrow> int list \<Rightarrow> (int, real) pydict" where
  "cache_scores lu base_order = fold (cache_step lu) base_order []"

text \<open>
  \<open>_reconcile_mru\<close> assigns the reordered tab list to \<open>self.tabs\<close> and returns the score
  dictionary; the model returns both. \<open>now\<close> is the reading of \<open>time.time()\<close>. Python's
  \<open>sorted\<close> is stable, as \<^const>\<open>sort_key\<close> is. In the first branch the result
  \<open>{tid: out[tid] for tid in base_order}\<close> cannot raise \<open>KeyError\<close>, every id of
  \<open>base_order\<close> having been stored in \<open>out\<close> by the loop before it.
\<close>

definition reconcile_mru ::
  "real \<Rightarrow> TabInfo list \<Rightarrow> (int, real) pydict \<Rightarrow> TabInfo list \<times> (int, real) pydict" where
  "reconcile_mru now ts lu =
     (let base_order = map tab_id ts;
          base_rank = base_rank_of base_order;
          by_id = by_id_of ts
      in if list_ex (\<lambda>t. last_focused t \<noteq> None) ts
         then
           (let out = force_active now ts (focus_scores ts);
                ordered = sort_key (mru_key base_rank) out
            in (tabs_in_order by_id ordered,
                fold (\<lambda>tid d. dict_set d tid (dict_get out tid 0)) base_order []))
         else
           (let out = force_active now ts (cache_scores lu base_order);
                ordered = sort_key (mru_key base_rank) out
            in (tabs_in_order by_id ordered, out)))"

text \<open>
  The score the specification assigns to a tab, in its own words: the native time stamp
  if any tab has one (a tab without one counting 0), otherwise the persisted score
  (a tab without one counting 0); the score of the active tab, that is of the tab that
  the host flags \<open>is_active\<close>, is raised to at least \<open>now\<close>.
\<close>

definition base_score :: "TabInfo list \<Rightarrow> (int, real) pydict \<Rightarrow> TabInfo \<Rightarrow> real" where
  "base_score ts persisted t =
     (if list_ex (\<lambda>t. last_focused t \<noteq> None) ts
      then (case last_focused t of Some x \<Rightarrow> x | None \<Rightarrow> 0)
      else (case map_of persisted (tab_id t) of Some x \<Rightarrow> x | None \<Rightarrow> 0))"

definition mru_score :: "real \<Rightarrow> TabInfo list \<Rightarrow> (int, real) pydict \<Rightarrow> TabInfo \<Rightarrow> real" where
  "mru_score now ts persisted t =
     (if is_active t
      then max (base_score ts persisted t) now
      else base_score ts persisted t)"

text \<open>
  The score that \<open>_reconcile_mru\<close> stores for a tab, for any list of tabs: the tab whose
  score it raises is the one whose id \<open>_active_tab_id\<close> returns.
\<close>

definition stored_score :: "real \<Rightarrow> TabInfo list \<Rightarrow> (int, real) pydict \<Rightarrow> TabInfo \<Rightarrow> real" where
  "stored_score now ts persisted t =
     (if active_tab_id ts = Some (tab_id t)
      then max (base_score ts persisted t) now
      else base_score ts persisted t)"

text \<open>A tab with the given id and active flag, for concrete instances.\<close>

definition example_tab :: "int \<Rightarrow> bool \<Rightarrow> TabInfo" where
  "example_tab i a = \<lparr>tab_id = i, title = [], window_id = i, is_active = a, last_focused = None\<rparr>"


section \<open>The key decoder (tab_switcher.py)\<close>

definition TAB_CODE :: int where "TAB_CODE = 9"
definition ESC_CODE :: int where "ESC_CODE = 27"
definition MARKER_KEY_CODE :: int where "MARKER_KEY_CODE = 57387"
definition CTRL_KEY_CODES :: "int set" where "CTRL_KEY_CODES = {57442, 57448}"

text \<open>Class \<open>KeyEvent\<close> with its properties \<open>shift\<close> and \<open>ctrl\<close>.\<close>

record KeyEvent =
  key_code :: int
  mods :: int
  event_type :: int

definition key_event :: "int \<Rightarrow> int \<Rightarrow> int \<Rightarrow> KeyEvent" where
  "key_event k m e = \<lparr>key_code = k, mods = m, event_type = e\<rparr>"

definition shift :: "KeyEvent \<Rightarrow> bool" where
  "shift ev = ((mods ev - 1) AND 1 \<noteq> 0)"

definition ctrl :: "KeyEvent \<Rightarrow> bool" where
  "ctrl ev = ((mods ev - 1) AND 4 \<noteq> 0)"

text \<open>
  A Python \<open>bytes\<close> value is a \<^typ>\<open>string\<close>, a list of 8-bit characters.
  \<open>buf.decode("ascii", "ignore")\<close> drops every byte from \<open>0x80\<close> on; it cannot raise.
\<close>

definition decode_ascii_ignore :: "string \<Rightarrow> pystr" where
  "decode_ascii_ignore b = map of_char (filter (\<lambda>c. (of_char c :: nat) < 128) b)"

text \<open>
  \<open>parse_csi_u\<close>. The payload is \<open>buf[2:-1]\<close>. Neither \<open>int\<close> call is inside the
  \<open>try\<close>, so their \<open>ValueError\<close> leaves the function. The payload is ASCII after
  decoding, so \<open>int\<close> never consults the classification of other code points.
\<close>

definition parse_csi_u :: "string \<Rightarrow> error + KeyEvent option" where
  "parse_csi_u buf =
     (let payload = decode_ascii_ignore (butlast (drop 2 buf))
      in if payload = [] then Inr None
         else
           let parts = py_split 59 payload;
               key_field = hd parts;
               k0 = hd (py_split 58 key_field)
           in case (if k0 = [] then Inr 0 else py_int ascii_ucd k0) of
                Inl e \<Rightarrow> Inl e
              | Inr kc \<Rightarrow>
                  if length parts > 1 \<and> parts ! 1 \<noteq> []
                  then
                    let mod_field = parts ! 1
                    in if 58 \<in> set mod_field
                       then
                         let mods_str = takeWhile (\<lambda>c. c \<noteq> 58) mod_field;
                             ev_str = tl (dropWhile (\<lambda>c. c \<noteq> 58) mod_field)
                         in case (if mods_str \<noteq> [] then py_int ascii_ucd mods_str else Inr 1) of
                              Inl e \<Rightarrow> Inl e
                            | Inr m \<Rightarrow>
                                (case (if ev_str \<noteq> [] then py_int ascii_ucd ev_str else Inr 1) of
                                   Inl e \<Rightarrow> Inl e
                                 | Inr et \<Rightarrow> Inr (Some (key_event kc m et)))
                       else
                         (case py_int ascii_ucd mod_field of
                            Inl e \<Rightarrow> Inl e
                          | Inr m \<Rightarrow> Inr (Some (key_event kc m 1)))
                  else Inr (Some (key_event kc 1 1)))"

text \<open>
  The loop of \<open>read_key\<close> that collects the bytes after \<open>ESC [\<close>. The argument is the
  bytes that \<open>read_with_timeout\<close> delivers one by one; when they run out the read
  returns \<open>b""\<close> (time-out or end of file) and the loop stops.
\<close>

fun read_csi :: "string \<Rightarrow> string \<Rightarrow> string" where
  "read_csi buf [] = buf"
| "read_csi buf (ch # rest) =
     (let buf' = buf @ [ch]
      in if 0x40 \<le> (of_char ch :: nat) \<and> (of_char ch :: nat) \<le> 0x7e then buf'
         else if length buf' > 64 then buf'
         else read_csi buf' rest)"

text \<open>
  \<open>read_key\<close> on the bytes that are available on the descriptor: the first \<open>os.read\<close>
  yields the first byte (or nothing: \<open>None\<close>), each \<open>read_with_timeout\<close> the next one.
  \<open>buf.endswith(b"Z")\<close> looks at the last byte; \<open>buf\<close> always starts with \<open>ESC [\<close>.
\<close>

definition read_key :: "string \<Rightarrow> error + KeyEvent option" where
  "read_key inp =
     (case inp of
        [] \<Rightarrow> Inr None
      | first # rest \<Rightarrow>
          if first = CHR 0x09 then Inr (Some (key_event TAB_CODE 1 1))
          else if first \<noteq> CHR 0x1B then Inr (Some (key_event (of_char first) 1 1))
          else
            (case rest of
               [] \<Rightarrow> Inr (Some (key_event ESC_CODE 1 1))
             | nxt # rest' \<Rightarrow>
                 if nxt \<noteq> CHR ''['' then Inr (Some (key_event ESC_CODE 1 1))
                 else
                   let buf = read_csi [CHR 0x1B, CHR ''[''] rest'
                   in if last buf = CHR ''Z'' then Inr (Some (key_event (- TAB_CODE) 2 1))
                      else if last buf = CHR ''I'' then Inr (Some (key_event TAB_CODE 1 1))
                      else
                        let params = decode_ascii_ignore (butlast (drop 2 buf))
                        in if last buf = CHR ''~'' \<and> py_strip ascii_ucd params = [57]
                           then Inr (Some (key_event TAB_CODE 1 1))
                           else if last buf = CHR ''~'' \<and> py_strip ascii_ucd params = [50, 52]
                           then Inr (Some (key_event MARKER_KEY_CODE 1 1))
                           else if last buf \<noteq> CHR ''u'' then Inr (Some (key_event ESC_CODE 1 1))
                           else parse_csi_u buf))"

text \<open>
  The structured key report \<open>ESC [ key[:alt][;mods[:event]] u\<close> of the specification,
  as the terminal would send it: every field in decimal, the optional fields present
  or not.
\<close>

definition key_report_payload :: "nat \<Rightarrow> nat option \<Rightarrow> (nat \<times> nat option) option \<Rightarrow> pystr" where
  "key_report_payload k alt me =
     digits_of k
     @ (case alt of None \<Rightarrow> [] | Some a \<Rightarrow> 58 # digits_of a)
     @ (case me of
          None \<Rightarrow> []
        | Some (m, ev) \<Rightarrow> 59 # digits_of m @ (case ev of None \<Rightarrow> [] | Some t \<Rightarrow> 58 # digits_of t))"

definition encode_key_report :: "nat \<Rightarrow> nat option \<Rightarrow> (nat \<times> nat option) option \<Rightarrow> string" where
  "encode_key_report k alt me =
     [CHR 0x1B, CHR ''[''] @ map char_of (key_report_payload k alt me) @ [CHR ''u'']"

text \<open>The triple that such a report encodes, the omitted fields at their defaults.\<close>

definition reported_event :: "nat \<Rightarrow> (nat \<times> nat option) option \<Rightarrow> KeyEvent" where
  "reported_event k me =
     key_event (int k)
       (case me of None \<Rightarrow> 1 | Some (m, ev) \<Rightarrow> int m)
       (case me of Some (m, Some t) \<Rightarrow> int t | _ \<Rightarrow> 1)"

section \<open>The switcher (class \<open>RawSwitcher\<close>, tab_switcher.py)\<close>

definition PREVIEW_COLS :: nat where "PREVIEW_COLS = 40"
definition PREVIEW_ROWS :: nat where "PREVIEW_ROWS = 12"
definition PREVIEW_REFRESH_SECS :: real where "PREVIEW_REFRESH_SECS = 0.5"

text \<open>
  The fields that \<open>__init__\<close> sets, under their names. \<open>mod_query\<close> is a callable or
  \<open>None\<close>; the record keeps whether it is present, and its result is an input of each
  tick. \<open>preview_queue\<close> is an attribute that exists only after its first use
  (\<open>hasattr\<close>), hence an option. The last four fields record what the switcher did to
  its collaborators: the map given to \<open>StateStore.save\<close>, the maps given to
  \<open>PreviewStore.save\<close>, the tabs \<open>_focus_tab\<close> asked the host to focus, and the number of
  frames painted. What a frame looks like is not modelled: \<open>draw\<close> paints from the theme,
  the screen size, \<open>tabs\<close>, \<open>selected_index\<close> and \<open>preview_cache\<close> and changes none of
  them.
\<close>

record switcher =
  tabs :: "TabInfo list"
  last_used :: "(int, real) pydict"
  original_tab_id :: "int option"
  mru_order :: "int list"
  selected_index :: int
  last_draw :: real
  ctrl_down :: bool
  start_time :: real
  saw_tab_event :: bool
  ctrl_seen :: bool
  mod_query_present :: bool
  ctrl_mask :: "int option"
  last_input_time :: real
  poll_ctrl_seen :: bool
  any_key_event :: bool
  ctrl_up_streak :: int
  marker_seen :: bool
  marker_sent :: bool
  initial_mods_checked :: bool
  initial_ctrl_down :: bool
  preview_cache :: "(int, pystr list) pydict"
  preview_cache_ts :: "(int, real) pydict"
  preview_queue :: "int list option"
  saved_mru :: "(int, real) pydict option"
  saved_previews :: "((int, pystr list) pydict \<times> (int, real) pydict) option"
  focus_requests :: "int list"
  frames :: nat

text \<open>
  What a handler reads from outside the switcher: the clock (one reading of
  \<open>time.time()\<close> for the handler), the screen text the host returns for a window
  (\<open>get_text_lines_from_rc\<close>, the empty list on failure), and the order in which the
  interpreter iterates the set \<open>{a, b, c}\<close> built from the given elements.
\<close>

record env =
  clock :: real
  host_text :: "int \<Rightarrow> pystr list"
  set_iter :: "int list \<Rightarrow> int list"

text \<open>Sequencing of computations that may raise.\<close>

definition ebind :: "error + 'a \<Rightarrow> ('a \<Rightarrow> error + 'b) \<Rightarrow> error + 'b" where
  "ebind m f = (case m of Inl e \<Rightarrow> Inl e | Inr x \<Rightarrow> f x)"

fun efold :: "('a \<Rightarrow> 's \<Rightarrow> error + 's) \<Rightarrow> 'a list \<Rightarrow> 's \<Rightarrow> error + 's" where
  "efold f [] s = Inr s"
| "efold f (x # xs) s = ebind (f x s) (efold f xs)"

text \<open>\<open>_current_tab_id\<close>; \<open>self.tabs[self.selected_index]\<close> raises when out of range.\<close>

definition current_tab_id :: "switcher \<Rightarrow> error + int option" where
  "current_tab_id s =
     (if tabs s = [] then Inr None
      else ebind (py_nth (tabs s) (selected_index s)) (\<lambda>t. Inr (Some (tab_id t))))"

text \<open>
  \<open>_update_mru\<close>: the new order, then the scores \<open>now - idx * 0.001\<close> in that order, which
  are persisted.
\<close>

definition new_mru_order :: "int \<Rightarrow> int option \<Rightarrow> int list \<Rightarrow> int list" where
  "new_mru_order tid orig order =
     [tid]
     @ (case orig of None \<Rightarrow> [] | Some ot \<Rightarrow> if ot \<noteq> tid then [ot] else [])
     @ filter (\<lambda>t. t \<noteq> tid \<and> Some t \<noteq> orig) order"

definition mru_scores :: "real \<Rightarrow> int list \<Rightarrow> (int, real) pydict" where
  "mru_scores now order =
     fold (\<lambda>(idx, t) d. dict_set d t (now - real idx * 0.001)) (enumerate 0 order) []"

definition update_mru :: "real \<Rightarrow> int \<Rightarrow> switcher \<Rightarrow> switcher" where
  "update_mru now tid s =
     (let order = new_mru_order tid (original_tab_id s) (mru_order s);
          lu = mru_scores now order
      in s\<lparr>mru_order := order, last_used := lu, saved_mru := Some lu\<rparr>)"

definition focus_tab :: "int \<Rightarrow> switcher \<Rightarrow> switcher" where
  "focus_tab tid s = s\<lparr>focus_requests := focus_requests s @ [tid]\<rparr>"

text \<open>\<open>commit\<close>; without a current tab it is \<open>cancel\<close>, which does nothing.\<close>

definition commit :: "env \<Rightarrow> switcher \<Rightarrow> error + switcher" where
  "commit e s =
     ebind (current_tab_id s)
       (\<lambda>cur. case cur of
                None \<Rightarrow> Inr s
              | Some tid \<Rightarrow> Inr (focus_tab tid (update_mru (clock e) tid s)))"

text \<open>\<open>_preview_stale\<close>, \<open>_fetch_preview\<close>, \<open>_tab_by_id\<close>.\<close>

definition preview_stale :: "env \<Rightarrow> switcher \<Rightarrow> int \<Rightarrow> bool" where
  "preview_stale e s tid =
     (if map_of (preview_cache s) tid = None then True
      else clock e - dict_get (preview_cache_ts s) tid 0 \<ge> PREVIEW_REFRESH_SECS)"

definition fetch_preview :: "env \<Rightarrow> TabInfo \<Rightarrow> pystr list" where
  "fetch_preview e t =
     (let lines = host_text e (window_id t)
      in if lines = [] then replicate PREVIEW_ROWS (replicate PREVIEW_COLS 32) else lines)"

definition tab_by_id :: "switcher \<Rightarrow> int \<Rightarrow> TabInfo option" where
  "tab_by_id s tid = find (\<lambda>t. tab_id t = tid) (tabs s)"

text \<open>Storing a fetched preview: the cache entry, its time stamp, and the save.\<close>

definition store_preview :: "env \<Rightarrow> TabInfo \<Rightarrow> switcher \<Rightarrow> switcher" where
  "store_preview e t s =
     (let c = dict_set (preview_cache s) (tab_id t) (fetch_preview e t);
          ts = dict_set (preview_cache_ts s) (tab_id t) (clock e)
      in s\<lparr>preview_cache := c, preview_cache_ts := ts, saved_previews := Some (c, ts)\<rparr>)"

text \<open>\<open>_ensure_preview_cache\<close>: the selected tab and its two neighbours, as a set.\<close>

definition neighbourhood :: "switcher \<Rightarrow> int list" where
  "neighbourhood s =
     (let n = int (length (tabs s))
      in [selected_index s, (selected_index s - 1) mod n, (selected_index s + 1) mod n])"

definition ensure_step :: "env \<Rightarrow> int \<Rightarrow> switcher \<Rightarrow> error + switcher" where
  "ensure_step e idx s =
     ebind (py_nth (tabs s) idx)
       (\<lambda>t. if map_of (preview_cache s) (tab_id t) = None
            then Inr (store_preview e t s) else Inr s)"

definition ensure_preview_cache :: "env \<Rightarrow> switcher \<Rightarrow> error + switcher" where
  "ensure_preview_cache e s =
     (if tabs s = [] then Inr s
      else efold (ensure_step e) (set_iter e (neighbourhood s)) s)"

text \<open>
  \<open>_move\<close>. Both \<open>_current_tab_id\<close> calls only feed the log, but they are evaluated, and
  the first one raises if the selection is out of range.
\<close>

definition move :: "env \<Rightarrow> int \<Rightarrow> switcher \<Rightarrow> error + switcher" where
  "move e delta s =
     (if tabs s = [] then Inr s
      else ebind (current_tab_id s)
        (\<lambda>_. let s1 = s\<lparr>selected_index := (selected_index s + delta) mod int (length (tabs s))\<rparr>
             in ebind (current_tab_id s1) (\<lambda>_. ensure_preview_cache e s1)))"

text \<open>
  Queueing a tab for refresh if its preview is stale: the queue is created if needed
  and the tab appended unless it is there.
\<close>

definition enqueue :: "int \<Rightarrow> switcher \<Rightarrow> switcher" where
  "enqueue tid s =
     (let q = (case preview_queue s of None \<Rightarrow> [] | Some q \<Rightarrow> q)
      in s\<lparr>preview_queue := Some (if tid \<in> set q then q else q @ [tid])\<rparr>)"

definition queue_if_stale :: "env \<Rightarrow> int \<Rightarrow> switcher \<Rightarrow> switcher" where
  "queue_if_stale e tid s = (if preview_stale e s tid then enqueue tid s else s)"

text \<open>
  \<open>draw\<close>. \<open>_compute_layout\<close> sets \<open>max_cards\<close> to \<open>max(1, len(self.tabs))\<close>, so
  \<open>_visible_cards\<close> returns all tabs. For each of them the loop evaluates
  \<open>self._current_tab_id()\<close>, queues the tab if its preview is stale, and paints the card.
  \<open>paint\<close> is the body of \<open>draw\<close> after the check that skips a frame drawn less than
  16 ms after the last one.
\<close>

definition draw_card_step :: "env \<Rightarrow> TabInfo \<Rightarrow> switcher \<Rightarrow> error + switcher" where
  "draw_card_step e t s =
     ebind (current_tab_id s) (\<lambda>_. Inr (queue_if_stale e (tab_id t) s))"

definition paint :: "env \<Rightarrow> switcher \<Rightarrow> error + switcher" where
  "paint e s =
     (let s1 = s\<lparr>last_draw := clock e\<rparr>
      in if tabs s1 = [] then Inr (s1\<lparr>frames := frames s1 + 1\<rparr>)
         else ebind (efold (draw_card_step e) (tabs s1) s1)
                (\<lambda>s2. Inr (s2\<lparr>frames := frames s2 + 1\<rparr>)))"

definition draw :: "env \<Rightarrow> bool \<Rightarrow> switcher \<Rightarrow> error + switcher" where
  "draw e force s =
     (if \<not> force \<and> clock e - last_draw s < 0.016 then Inr s else paint e s)"

text \<open>\<open>_schedule_preview_fetch\<close>: the same three indices, as a list, in this order.\<close>

definition schedule_step :: "env \<Rightarrow> int \<Rightarrow> switcher \<Rightarrow> error + switcher" where
  "schedule_step e idx s =
     ebind (py_nth (tabs s) idx) (\<lambda>t. Inr (queue_if_stale e (tab_id t) s))"

definition schedule_preview_fetch :: "env \<Rightarrow> switcher \<Rightarrow> error + switcher" where
  "schedule_preview_fetch e s =
     (if tabs s = [] then Inr s
      else
        let s0 = (case preview_queue s of None \<Rightarrow> s\<lparr>preview_queue := Some []\<rparr> | Some _ \<Rightarrow> s)
        in efold (schedule_step e) (neighbourhood s0) s0)"

text \<open>\<open>_drain_preview_queue\<close>: the result and the new state.\<close>

definition drain_preview_queue :: "env \<Rightarrow> switcher \<Rightarrow> bool \<times> switcher" where
  "drain_preview_queue e s =
     (case preview_queue s of
        None \<Rightarrow> (False, s)
      | Some [] \<Rightarrow> (False, s)
      | Some (tid # q) \<Rightarrow>
          let s1 = s\<lparr>preview_queue := Some q\<rparr>
          in (case tab_by_id s1 tid of
                None \<Rightarrow> (False, s1)
              | Some t \<Rightarrow>
                  if preview_stale e s1 (tab_id t) then (True, store_preview e t s1)
                  else (False, s1)))"

definition should_commit_on_ctrl_release :: "env \<Rightarrow> switcher \<Rightarrow> bool" where
  "should_commit_on_ctrl_release e s =
     (if saw_tab_event s then True else clock e - start_time s > 0.2)"

subsection \<open>One round of the loop of \<open>run\<close>\<close>

text \<open>
  A round either goes on with the next \<open>select\<close> or leaves \<open>run\<close>; the reason is the
  message the code logs just before it returns.
\<close>

datatype exit_reason =
  CtrlPollCommit | MarkerNoCtrlTimeoutCommit | InitialCtrlUpCommit | NoMarkerTimeoutCommit
  | NoTabTimeoutCommit | CtrlReleaseCommit | EscapeCancel | QuitQ

datatype outcome = Running switcher | Exited exit_reason switcher

definition exit_commit :: "env \<Rightarrow> exit_reason \<Rightarrow> switcher \<Rightarrow> error + outcome" where
  "exit_commit e r s = ebind (commit e s) (\<lambda>s'. Inr (Exited r s'))"

text \<open>
  The four time-out guards of a tick, in the order of the code, after the oracle
  part.
\<close>

definition timeout_guards :: "env \<Rightarrow> switcher \<Rightarrow> error + outcome" where
  "timeout_guards e s =
     (let elapsed = clock e - start_time s
      in if marker_seen s \<and> \<not> ctrl_down s \<and> \<not> saw_tab_event s \<and> elapsed > 0.15
         then exit_commit e MarkerNoCtrlTimeoutCommit s
         else if \<not> marker_sent s \<and> initial_mods_checked s \<and> \<not> initial_ctrl_down s
                 \<and> \<not> saw_tab_event s \<and> \<not> marker_seen s \<and> \<not> ctrl_seen s \<and> elapsed > 0.08
         then exit_commit e InitialCtrlUpCommit s
         else if marker_sent s \<and> \<not> any_key_event s \<and> \<not> marker_seen s \<and> elapsed > 0.2
         then exit_commit e NoMarkerTimeoutCommit s
         else if any_key_event s \<and> \<not> saw_tab_event s \<and> \<not> ctrl_down s \<and> elapsed > 0.2
         then exit_commit e NoTabTimeoutCommit s
         else Inr (Running s))"

text \<open>
  The oracle part of a tick. \<open>poll\<close> is what \<open>self.mod_query()\<close> returns when it is
  called: the modifier bits, or \<open>None\<close>.
\<close>

definition oracle_poll :: "env \<Rightarrow> int option \<Rightarrow> switcher \<Rightarrow> error + outcome" where
  "oracle_poll e poll s =
     (case (mod_query_present s, ctrl_mask s, poll) of
        (True, Some cm, Some m) \<Rightarrow>
          if ctrl_is_down m cm
          then timeout_guards e (s\<lparr>poll_ctrl_seen := True, ctrl_down := True, ctrl_up_streak := 0\<rparr>)
          else
            let s1 = s\<lparr>ctrl_up_streak := ctrl_up_streak s + 1\<rparr>
            in if poll_ctrl_seen s1 \<and> ctrl_up_streak s1 \<ge> 2
               then exit_commit e CtrlPollCommit s1
               else timeout_guards e s1
      | _ \<Rightarrow> timeout_guards e s)"

text \<open>The tick: \<open>select\<close> timed out (\<open>if not r:\<close>).\<close>

definition tick :: "env \<Rightarrow> int option \<Rightarrow> switcher \<Rightarrow> error + outcome" where
  "tick e poll s =
     (case drain_preview_queue e s of
        (drained, s1) \<Rightarrow>
          ebind (if drained then draw e False s1 else Inr s1) (oracle_poll e poll))"

text \<open>A datagram on the command socket; \<open>"next"\<close> and \<open>"prev"\<close> are the code points below.\<close>

definition cmd_next :: pystr where "cmd_next = [110, 101, 120, 116]"
definition cmd_prev :: pystr where "cmd_prev = [112, 114, 101, 118]"

definition handle_command :: "env \<Rightarrow> pystr \<Rightarrow> switcher \<Rightarrow> error + switcher" where
  "handle_command e cmd s =
     (if cmd = cmd_next \<or> cmd = cmd_prev
      then ebind (move e (if cmd = cmd_prev then - 1 else 1) s) (draw e True)
      else Inr s)"

text \<open>
  A decoded key event (\<open>read_key\<close> returned an event, not \<open>None\<close>). Two blocks of the
  handler are named: the assignments for the control-class key codes, and what the two
  branches for the cycle key share after they have set their flags (\<open>_move\<close>,
  \<open>draw(force=True)\<close>, \<open>_schedule_preview_fetch\<close>, \<open>continue\<close>).
\<close>

definition ctrl_key_update :: "KeyEvent \<Rightarrow> switcher \<Rightarrow> switcher" where
  "ctrl_key_update ev s =
     (let s1 = (if key_code ev \<in> CTRL_KEY_CODES \<and> event_type ev = 1
                then s\<lparr>ctrl_down := True, ctrl_seen := True\<rparr> else s)
      in if key_code ev \<in> CTRL_KEY_CODES \<and> event_type ev = 3
         then s1\<lparr>ctrl_down := False\<rparr> else s1)"

definition cycle_selection :: "env \<Rightarrow> int \<Rightarrow> switcher \<Rightarrow> error + outcome" where
  "cycle_selection e delta s =
     ebind (move e delta s)
       (\<lambda>s5. ebind (draw e True s5)
          (\<lambda>s6. ebind (schedule_preview_fetch e s6) (\<lambda>s7. Inr (Running s7))))"

definition handle_key :: "env \<Rightarrow> KeyEvent \<Rightarrow> switcher \<Rightarrow> error + outcome" where
  "handle_key e ev s0 =
     (let s = s0\<lparr>any_key_event := True, last_input_time := clock e\<rparr>
      in if key_code ev = MARKER_KEY_CODE \<and> event_type ev = 1
         then Inr (Running (s\<lparr>marker_seen := True, ctrl_down := True, ctrl_seen := True\<rparr>))
         else if key_code ev = MARKER_KEY_CODE \<and> event_type ev = 3
         then Inr (Running (s\<lparr>ctrl_down := False\<rparr>))
         else
           let s2 = ctrl_key_update ev s
           in if key_code ev \<in> CTRL_KEY_CODES \<and> event_type ev = 3
                 \<and> should_commit_on_ctrl_release e s2
              then exit_commit e CtrlReleaseCommit s2
              else if key_code ev = ESC_CODE \<and> event_type ev = 1
              then Inr (Exited EscapeCancel s2)
              else if key_code ev = TAB_CODE \<and> (event_type ev = 1 \<or> event_type ev = 2)
              then
                let s3 = s2\<lparr>saw_tab_event := True\<rparr>;
                    s4 = (if ctrl ev then s3\<lparr>ctrl_down := True\<rparr> else s3)
                in cycle_selection e (if shift ev then - 1 else 1) s4
              else if key_code ev = - TAB_CODE
              then cycle_selection e (- 1) (s2\<lparr>saw_tab_event := True\<rparr>)
              else if key_code ev = 113 \<and> event_type ev = 1
              then Inr (Exited QuitQ s2)
              else Inr (Running s2))"

text \<open>
  What one \<open>select\<close> delivers: nothing within 50 ms (then the oracle's answer, if it is
  asked, is part of the input), or a datagram and/or a decoded key. A round handles
  the datagram first, then the key.
\<close>

datatype loop_input = Idle "int option" | Ready "pystr option" "KeyEvent option"

definition round :: "env \<Rightarrow> loop_input \<Rightarrow> switcher \<Rightarrow> error + outcome" where
  "round e inp s =
     (case inp of
        Idle poll \<Rightarrow> tick e poll s
      | Ready cmd key \<Rightarrow>
          ebind (case cmd of None \<Rightarrow> Inr s | Some c \<Rightarrow> handle_command e c s)
            (\<lambda>s1. case key of None \<Rightarrow> Inr (Running s1) | Some ev \<Rightarrow> handle_key e ev s1))"

text \<open>
  The loop \<open>while True\<close> of \<open>run\<close> on a finite sequence of rounds, each with what it
  reads from outside. It stops at the first round that leaves \<open>run\<close>; when the inputs
  run out the switcher is still running.
\<close>

fun run_rounds :: "(env \<times> loop_input) list \<Rightarrow> switcher \<Rightarrow> error + outcome" where
  "run_rounds [] s = Inr (Running s)"
| "run_rounds ((e, inp) # rest) s =
     (case round e inp s of
        Inl err \<Rightarrow> Inl err
      | Inr (Running s') \<Rightarrow> run_rounds rest s'
      | Inr (Exited r s') \<Rightarrow> Inr (Exited r s'))"

subsection \<open>Construction of the switcher\<close>

text \<open>
  \<open>_initial_index\<close> and \<open>__init__\<close>. The arguments after the direction are what
  \<open>resolve_mod_query()\<close> and \<open>PreviewStore.load()\<close> return.
\<close>

definition initial_index :: "TabInfo list \<Rightarrow> int \<Rightarrow> int" where
  "initial_index ts direction =
     (if ts = [] then 0
      else if direction \<ge> 0 then 1 mod int (length ts)
      else (int (length ts) - 1) mod int (length ts))"

definition init_switcher ::
  "real \<Rightarrow> TabInfo list \<Rightarrow> (int, real) pydict \<Rightarrow> int \<Rightarrow> bool \<Rightarrow> int option
     \<Rightarrow> (int, pystr list) pydict \<times> (int, real) pydict \<Rightarrow> switcher" where
  "init_switcher now ts mru direction mq cm cached =
     (case reconcile_mru now ts mru of
        (ts', lu) \<Rightarrow>
          let orig = active_tab_id ts';
              lu' = (case orig of Some a \<Rightarrow> dict_set lu a now | None \<Rightarrow> lu)
          in \<lparr>tabs = ts', last_used = lu', original_tab_id = orig,
              mru_order = map tab_id ts', selected_index = initial_index ts' direction,
              last_draw = 0, ctrl_down = False, start_time = now, saw_tab_event = False,
              ctrl_seen = False, mod_query_present = mq, ctrl_mask = cm,
              last_input_time = now, poll_ctrl_seen = False, any_key_event = False,
              ctrl_up_streak = 0, marker_seen = False, marker_sent = False,
              initial_mods_checked = False, initial_ctrl_down = False,
              preview_cache = fst cached, preview_cache_ts = snd cached,
              preview_queue = None, saved_mru = None, saved_previews = None,
              focus_requests = [], frames = 0\<rparr>)"

text \<open>
  A session on the host tabs 5 (active), 2 and 7 with an empty persisted map, started
  in direction \<open>next\<close>: the selection starts on tab 2.
\<close>

definition example_switcher :: switcher where
  "example_switcher =
     init_switcher 1700000000 [example_tab 5 True, example_tab 2 False, example_tab 7 False]
       [] 1 False None ([], [])"

text \<open>
  For the comparison of a datagram with a key press: the state of an outcome, the
  fields that the key path sets before it moves the selection (\<open>any_key_event\<close>,
  \<open>last_input_time\<close>, \<open>saw_tab_event\<close>), the fields that the comparison reads, and an
  environment for concrete instances.
\<close>

fun outcome_state :: "outcome \<Rightarrow> switcher" where
  "outcome_state (Running s) = s"
| "outcome_state (Exited r s) = s"

definition key_flags :: "env \<Rightarrow> switcher \<Rightarrow> switcher" where
  "key_flags e s = s\<lparr>any_key_event := True, last_input_time := clock e, saw_tab_event := True\<rparr>"

definition sel_and_flags ::
  "switcher \<Rightarrow> TabInfo list \<times> int \<times> bool \<times> bool \<times> real \<times> real \<times> nat" where
  "sel_and_flags s =
     (tabs s, selected_index s, saw_tab_event s, any_key_event s, last_input_time s,
      last_draw s, frames s)"

definition example_env :: env where
  "example_env = \<lparr>clock = 1700000000.06, host_text = (\<lambda>_. []), set_iter = remdups\<rparr>"

subsection \<open>The start of \<open>run\<close>\<close>

text \<open>
  Before its loop \<open>run\<close> sends the marker key (\<open>_send_marker\<close>: the argument is
  whether the host accepted it, \<open>None\<close> when it was not sent at all), asks the oracle
  once (\<open>_check_initial_mods\<close>: the argument is its answer), draws the first frame and
  schedules the first preview fetches.
\<close>

definition send_marker :: "bool option \<Rightarrow> switcher \<Rightarrow> switcher" where
  "send_marker accepted s = (case accepted of None \<Rightarrow> s | Some ok \<Rightarrow> s\<lparr>marker_sent := ok\<rparr>)"

definition check_initial_mods :: "int option \<Rightarrow> switcher \<Rightarrow> switcher" where
  "check_initial_mods poll s =
     (case (mod_query_present s, ctrl_mask s, poll) of
        (True, Some cm, Some m) \<Rightarrow>
          s\<lparr>initial_mods_checked := True, initial_ctrl_down := ctrl_is_down m cm\<rparr>
      | _ \<Rightarrow> s)"

definition start_run :: "env \<Rightarrow> bool option \<Rightarrow> int option \<Rightarrow> switcher \<Rightarrow> error + switcher" where
  "start_run e accepted poll s =
     ebind (draw e False (check_initial_mods poll (send_marker accepted s)))
       (schedule_preview_fetch e)"

subsection \<open>What the oracle reported during a run\<close>

text \<open>
  The reason for which a round left \<open>run\<close>, if it did; the definite answers of the
  oracle in the ticks of a sequence of rounds, in order (a tick where the oracle
  answers \<open>None\<close> contributes nothing); and, for a list of answers tick by tick, whether
  two ticks in a row reported the modifier as not held.
\<close>

fun exit_reason_of :: "outcome \<Rightarrow> exit_reason option" where
  "exit_reason_of (Running s) = None"
| "exit_reason_of (Exited r s) = Some r"

fun report_of :: "loop_input \<Rightarrow> int list" where
  "report_of (Idle (Some m)) = [m]"
| "report_of (Idle None) = []"
| "report_of (Ready c k) = []"

definition oracle_reports :: "(env \<times> loop_input) list \<Rightarrow> int list" where
  "oracle_reports rs = concat (map (\<lambda>r. report_of (snd r)) rs)"

definition not_held_report :: "int \<Rightarrow> int option \<Rightarrow> bool" where
  "not_held_report cm p = (case p of None \<Rightarrow> False | Some m \<Rightarrow> \<not> ctrl_is_down m cm)"

fun two_in_a_row :: "('a \<Rightarrow> bool) \<Rightarrow> 'a list \<Rightarrow> bool" where
  "two_in_a_row P (x # y # zs) = ((P x \<and> P y) \<or> two_in_a_row P (y # zs))"
| "two_in_a_row P [x] = False"
| "two_in_a_row P [] = False"

definition oracle_fields :: "switcher \<Rightarrow> bool \<times> int option \<times> bool \<times> int" where
  "oracle_fields s = (mod_query_present s, ctrl_mask s, poll_ctrl_seen s, ctrl_up_streak s)"

text \<open>
  A session on three tabs with an oracle whose control mask is 4, the modifier held
  when \<open>run\<close> starts and no marker sent; and four ticks, 50 ms apart, in which the
  oracle answers: held, not held, unknown, not held.
\<close>

definition tick_env :: "real \<Rightarrow> env" where
  "tick_env t = \<lparr>clock = t, host_text = (\<lambda>_. []), set_iter = remdups\<rparr>"

definition example_oracle_switcher :: "error + switcher" where
  "example_oracle_switcher =
     start_run (tick_env 1700000000) None (Some 4)
       (init_switcher 1700000000
          [example_tab 5 True, example_tab 2 False, example_tab 7 False] [] 1 True (Some 4) ([], []))"

definition example_polls :: "int option list" where
  "example_polls = [Some 4, Some 0, None, Some 0]"

definition example_ticks :: "(env \<times> loop_input) list" where
  "example_ticks =
     [(tick_env 1700000000.05, Idle (Some 4)), (tick_env 1700000000.10, Idle (Some 0)),
      (tick_env 1700000000.15, Idle None), (tick_env 1700000000.20, Idle (Some 0))]"

text \<open>
  The invariant of the loop that connects the two oracle fields with the oracle's
  definite answers so far: once a held answer has been seen, the answers end with a
  held one (streak 0) or with a held one followed by one that is not (streak 1).
\<close>

definition poll_inv :: "bool \<times> int option \<times> bool \<times> int \<Rightarrow> int list \<Rightarrow> bool" where
  "poll_inv f hist =
     (case f of
        (mq, cmo, seen, streak) \<Rightarrow>
          seen \<longrightarrow>
            mq \<and> (\<exists>cm. cmo = Some cm
                  \<and> ((streak = 0 \<and> (\<exists>pre h. hist = pre @ [h] \<and> ctrl_is_down h cm))
                     \<or> (streak = 1 \<and> (\<exists>pre h a. hist = pre @ [h, a]
                                        \<and> ctrl_is_down h cm \<and> \<not> ctrl_is_down a cm)))))"

text \<open>
  What an oracle-path commit at a tick with answer \<open>poll\<close> rests on, \<open>hist\<close> being the
  definite answers before that tick: the answers end with held, not held, not held.
\<close>

definition release_seen :: "switcher \<Rightarrow> int option \<Rightarrow> int list \<Rightarrow> bool" where
  "release_seen s poll hist =
     (mod_query_present s
      \<and> (\<exists>cm pre h a b. ctrl_mask s = Some cm \<and> poll = Some b \<and> hist @ [b] = pre @ [h, a, b]
            \<and> ctrl_is_down h cm \<and> \<not> ctrl_is_down a cm \<and> \<not> ctrl_is_down b cm))"

section \<open>The block preview (preview_gen.py)\<close>

definition FILL_THRESHOLD :: real where "FILL_THRESHOLD = 0.2"
definition COLOR_THRESHOLD :: real where "COLOR_THRESHOLD = 0.35"
definition COLOR_TOTAL_THRESHOLD :: real where "COLOR_TOTAL_THRESHOLD = 0.0"

text \<open>
  A colour is a tuple of three integers, a parsed cell a tuple of a string of at most
  one character (empty for the second half of a wide glyph), a foreground and a
  background colour. \<open>_downsample_color\<close> returns tuples of three components, except for
  an empty list of lines, where its tuples have two.
\<close>

type_synonym rgb = "int \<times> int \<times> int"
type_synonym cell = "pystr \<times> rgb option \<times> rgb option"

datatype mask_cell = Cell3 bool "rgb option" "rgb option" | Cell2 bool "rgb option"

subsection \<open>Proportional index mapping\<close>

text \<open>
  \<open>r0 = int(r * src_rows / rows)\<close>, \<open>r1 = int((r + 1) * src_rows / rows)\<close> and the
  correction \<open>if r1 <= r0: r1 = min(src_rows, r0 + 1)\<close>; the same for columns. The
  operands are non-negative, so the truncated float quotient is the integer quotient
  (as long as the products are exact as floats, below \<open>2^53\<close>).
\<close>

definition span :: "nat \<Rightarrow> nat \<Rightarrow> nat \<Rightarrow> nat \<times> nat" where
  "span k src n =
     (let a = k * src div n; b = (k + 1) * src div n
      in (a, if b \<le> a then min src (a + 1) else b))"

definition max_len_of :: "'a list list \<Rightarrow> nat" where
  "max_len_of lines = max (foldr max (map length lines) 0) 1"

subsection \<open>\<open>downsample_mask\<close>\<close>

definition ljust :: "pystr \<Rightarrow> nat \<Rightarrow> pystr" where
  "ljust s n = s @ replicate (n - length s) 32"

text \<open>The characters of a sub-rectangle, row by row, as the two inner loops visit them.\<close>

definition mask_chars :: "pystr list \<Rightarrow> nat \<Rightarrow> nat \<times> nat \<Rightarrow> nat \<times> nat \<Rightarrow> bool list" where
  "mask_chars lines max_len rs cs =
     concat (map (\<lambda>sr. let line = ljust (lines ! sr) max_len
                        in map (\<lambda>sc. sc < length line \<and> line ! sc \<noteq> 32) [fst cs..<snd cs])
               [fst rs..<snd rs])"

definition mask_bit :: "bool list \<Rightarrow> bool" where
  "mask_bit visited =
     (let total = length visited; filled = length (filter id visited)
      in filled > 0 \<and> real filled / real (max total 1) \<ge> FILL_THRESHOLD)"

definition downsample_mask :: "pystr list \<Rightarrow> int \<Rightarrow> int \<Rightarrow> bool list list" where
  "downsample_mask lines cols rows =
     (if rows \<le> 0 \<or> cols \<le> 0 then []
      else if lines = [] then replicate (nat rows) (replicate (nat cols) False)
      else
        let max_len = max_len_of lines; src_rows = length lines
        in map (\<lambda>r. map (\<lambda>c. mask_bit (mask_chars lines max_len
                                        (span r src_rows (nat rows)) (span c max_len (nat cols))))
                      [0..<nat cols])
             [0..<nat rows])"

subsection \<open>Colour tables\<close>

definition ansi_8_color :: "int \<Rightarrow> rgb option" where
  "ansi_8_color code =
     map_of [(30, (0, 0, 0)), (31, (205, 49, 49)), (32, (13, 188, 121)), (33, (229, 229, 16)),
             (34, (36, 114, 200)), (35, (188, 63, 188)), (36, (17, 168, 205)),
             (37, (229, 229, 229)), (90, (102, 102, 102)), (91, (241, 76, 76)),
             (92, (35, 209, 139)), (93, (245, 245, 67)), (94, (59, 142, 234)),
             (95, (214, 112, 214)), (96, (41, 184, 219)), (97, (229, 229, 229))] code"

definition level :: "int \<Rightarrow> int" where
  "level n = (if n = 0 then 0 else 55 + n * 40)"

text \<open>In \<open>a or b\<close> a tuple is truthy, so the first operand is taken unless it is \<open>None\<close>.\<close>

definition ansi_256_color :: "int \<Rightarrow> rgb option" where
  "ansi_256_color code =
     (if code < 0 \<or> code > 255 then None
      else if code < 16
      then (case ansi_8_color (30 + code) of
              Some c \<Rightarrow> Some c
            | None \<Rightarrow> ansi_8_color (90 + (code - 8)))
      else if 16 \<le> code \<and> code \<le> 231
      then (let k = code - 16
            in Some (level ((k div 36) mod 6), level ((k div 6) mod 6), level (k mod 6)))
      else (let gray = 8 + (code - 232) * 10 in Some (gray, gray, gray)))"

definition rgb_from_8bit :: "int \<Rightarrow> rgb option" where
  "rgb_from_8bit code = ansi_8_color code"

subsection \<open>\<open>parse_ansi_lines\<close>\<close>

text \<open>\<open>s.find(c)\<close> for a character and for the two characters \<open>ESC \\<close>.\<close>

fun find_char :: "nat \<Rightarrow> pystr \<Rightarrow> nat option" where
  "find_char c [] = None"
| "find_char c (x # xs) = (if x = c then Some 0 else map_option Suc (find_char c xs))"

fun find_st :: "pystr \<Rightarrow> nat option" where
  "find_st (a # b # xs) = (if a = 27 \<and> b = 92 then Some 0 else map_option Suc (find_st (b # xs)))"
| "find_st [a] = None"
| "find_st [] = None"

text \<open>
  The two \<open>try\<close> blocks of the codes 38 and 48: the colour is only assigned when every
  \<open>int\<close> succeeded, otherwise it stays as it was.
\<close>

definition truecolor :: "ucd \<Rightarrow> pystr \<Rightarrow> pystr \<Rightarrow> pystr \<Rightarrow> rgb option \<Rightarrow> rgb option" where
  "truecolor u r g b old =
     (case (py_int u r, py_int u g, py_int u b) of
        (Inr r', Inr g', Inr b') \<Rightarrow> Some (r', g', b')
      | _ \<Rightarrow> old)"

definition palette :: "ucd \<Rightarrow> pystr \<Rightarrow> rgb option \<Rightarrow> rgb option" where
  "palette u idx old = (case py_int u idx of Inr i \<Rightarrow> ansi_256_color i | Inl _ \<Rightarrow> old)"

text \<open>The branch \<open>elif code.isdigit()\<close>, once \<open>int(code)\<close> has returned.\<close>

definition basic_color :: "int \<Rightarrow> rgb option \<times> rgb option \<Rightarrow> rgb option \<times> rgb option" where
  "basic_color cval st =
     (if (30 \<le> cval \<and> cval \<le> 37) \<or> (90 \<le> cval \<and> cval \<le> 97) then (ansi_8_color cval, snd st)
      else if (40 \<le> cval \<and> cval \<le> 47) \<or> (100 \<le> cval \<and> cval \<le> 107)
      then (fst st, ansi_8_color (cval - 10))
      else if 0 \<le> cval \<and> cval \<le> 7 then (rgb_from_8bit (30 + cval), snd st)
      else st)"

text \<open>
  The loop \<open>while j < len(parts)\<close> over the parameters of one SGR sequence, on the
  parameters from index \<open>j\<close> on. \<open>int(code)\<close> after \<open>code.isdigit()\<close> is outside every
  \<open>try\<close>: its \<open>ValueError\<close> leaves \<open>parse_ansi_lines\<close>.
\<close>

function sgr_codes ::
  "ucd \<Rightarrow> pystr list \<Rightarrow> rgb option \<Rightarrow> rgb option \<Rightarrow> error + (rgb option \<times> rgb option)" where
  "sgr_codes u [] fg bg = Inr (fg, bg)"
| "sgr_codes u (code # ps) fg bg =
     (if code = [48] then sgr_codes u ps None None
      else if code = [51, 57] then sgr_codes u ps None bg
      else if code = [52, 57] then sgr_codes u ps fg None
      else if code = [51, 56]
      then (if ps \<noteq> [] \<and> hd ps = [50] \<and> 4 \<le> length ps
            then sgr_codes u (drop 4 ps) (truecolor u (ps ! 1) (ps ! 2) (ps ! 3) fg) bg
            else if ps \<noteq> [] \<and> hd ps = [53] \<and> 2 \<le> length ps
            then sgr_codes u (drop 2 ps) (palette u (ps ! 1) fg) bg
            else sgr_codes u ps fg bg)
      else if code = [52, 56]
      then (if ps \<noteq> [] \<and> hd ps = [50] \<and> 4 \<le> length ps
            then sgr_codes u (drop 4 ps) fg (truecolor u (ps ! 1) (ps ! 2) (ps ! 3) bg)
            else if ps \<noteq> [] \<and> hd ps = [53] \<and> 2 \<le> length ps
            then sgr_codes u (drop 2 ps) fg (palette u (ps ! 1) bg)
            else sgr_codes u ps fg bg)
      else if py_isdigit u code
      then (case py_int u code of
              Inl e \<Rightarrow> Inl e
            | Inr cval \<Rightarrow> sgr_codes u ps (fst (basic_color cval (fg, bg)))
                           (snd (basic_color cval (fg, bg))))
      else sgr_codes u ps fg bg)"
  by pat_completeness auto
termination
  by (relation "measure (\<lambda>(u, ps, fg, bg). length ps)") auto

text \<open>One SGR sequence: the text between \<open>ESC [\<close> and the next \<open>m\<close>.\<close>

definition sgr_seq :: "ucd \<Rightarrow> pystr \<Rightarrow> rgb option \<Rightarrow> rgb option \<Rightarrow> error + (rgb option \<times> rgb option)" where
  "sgr_seq u seq fg bg =
     (if seq = [] then Inr (None, None)
      else
        let raw_parts = filter (\<lambda>p. p \<noteq> []) (py_split 59 seq);
            parts = concat (map (\<lambda>part. filter (\<lambda>p. p \<noteq> []) (py_split 58 part)) raw_parts)
        in if parts = [] then Inr (None, None) else sgr_codes u parts fg bg)"

text \<open>\<open>_is_private_use\<close> and \<open>_char_width\<close>. No ASCII character is combining, wide or a powerline symbol.\<close>

definition is_private_use :: "nat \<Rightarrow> bool" where
  "is_private_use c =
     ((0xE000 \<le> c \<and> c \<le> 0xF8FF) \<or> (0xF0000 \<le> c \<and> c \<le> 0xFFFFD) \<or> (0x100000 \<le> c \<and> c \<le> 0x10FFFD))"

definition char_width :: "ucd \<Rightarrow> nat \<Rightarrow> nat" where
  "char_width u c =
     (if c = 9 then 4
      else if 128 \<le> c \<and> uni_combining u c then 0
      else if 128 \<le> c \<and> uni_powerline u c then 2
      else if is_private_use c then 2
      else if 128 \<le> c \<and> uni_wide u c then 2
      else if c < 32 \<or> c = 127 then 0
      else 1)"

text \<open>
  The loop \<open>while i < len(line)\<close> of \<open>parse_ansi_lines\<close> on the rest of the line from
  index \<open>i\<close> on, with the colours, the column and the cells so far. An unterminated OSC
  sequence ends the line (\<open>break\<close>); \<open>ESC [\<close> without a following \<open>m\<close> skips the \<open>ESC\<close>
  only.
\<close>

function parse_chars ::
  "ucd \<Rightarrow> pystr \<Rightarrow> rgb option \<Rightarrow> rgb option \<Rightarrow> nat \<Rightarrow> cell list \<Rightarrow> error + cell list" where
  "parse_chars u [] fg bg col cur = Inr cur"
| "parse_chars u (ch # rest) fg bg col cur =
     (if ch = 27 \<and> rest \<noteq> [] \<and> hd rest = 93
      then (case (find_char 7 (tl rest), find_st (tl rest)) of
              (None, None) \<Rightarrow> Inr cur
            | (None, Some q) \<Rightarrow> parse_chars u (drop (q + 2) (tl rest)) fg bg col cur
            | (Some p, None) \<Rightarrow> parse_chars u (drop (p + 1) (tl rest)) fg bg col cur
            | (Some p, Some q) \<Rightarrow>
                parse_chars u (drop (min (p + 1) (q + 2)) (tl rest)) fg bg col cur)
      else if ch = 27 \<and> rest \<noteq> [] \<and> hd rest = 91
      then (case find_char 109 (tl rest) of
              None \<Rightarrow> parse_chars u rest fg bg col cur
            | Some p \<Rightarrow>
                (case sgr_seq u (take p (tl rest)) fg bg of
                   Inl e \<Rightarrow> Inl e
                 | Inr st \<Rightarrow> parse_chars u (drop (p + 1) (tl rest)) (fst st) (snd st) col cur))
      else if ch = 9
      then parse_chars u rest fg bg (col + (8 - col mod 8))
             (cur @ replicate (8 - col mod 8) ([32], fg, bg))
      else if ch = 13 then parse_chars u rest fg bg 0 cur
      else if char_width u ch = 0 then parse_chars u rest fg bg col cur
      else
        (let fg' = (if is_private_use ch then None else fg);
             ch' = (if is_private_use ch then 32 else ch)
         in if char_width u ch = 2
            then parse_chars u rest fg' bg (col + 2) (cur @ [([ch'], fg', bg), ([], fg', bg)])
            else parse_chars u rest fg' bg (col + 1) (cur @ [([ch'], fg', bg)])))"
  by pat_completeness auto
termination
  by (relation "measure (\<lambda>(u, s, fg, bg, col, cur). length s)") auto

text \<open>All lines; the colours are reset at the start of each.\<close>

fun parse_ansi_lines :: "ucd \<Rightarrow> pystr list \<Rightarrow> error + cell list list" where
  "parse_ansi_lines u [] = Inr []"
| "parse_ansi_lines u (line # lines) =
     ebind (parse_chars u line None None 0 [])
       (\<lambda>cells. ebind (parse_ansi_lines u lines) (\<lambda>rest. Inr (cells # rest)))"

subsection \<open>Trimming of trailing blank rows\<close>

text \<open>
  Both paths scan the rows from the last to the first, \<open>for idx in range(len(lines) - 1,
  -1, -1)\<close>, for a row with content and stop at the first hit with \<open>idx + 1\<close>;
  \<open>scan_back\<close> is that loop on the indices below \<open>n\<close>. Without a hit the count is
  \<open>min(len(lines), 1)\<close>. A plain line has content when \<open>line.strip()\<close> is not empty, a
  row of cells when \<open>ch.strip()\<close> is not empty for one of its cells.
\<close>

fun scan_back :: "('a \<Rightarrow> bool) \<Rightarrow> 'a list \<Rightarrow> nat \<Rightarrow> nat option" where
  "scan_back P xs 0 = None"
| "scan_back P xs (Suc i) = (if P (xs ! i) then Some (Suc i) else scan_back P xs i)"

definition content_row_count :: "('a \<Rightarrow> bool) \<Rightarrow> 'a list \<Rightarrow> nat" where
  "content_row_count P lines =
     (case scan_back P lines (length lines) of
        Some k \<Rightarrow> k
      | None \<Rightarrow> min (length lines) 1)"

definition line_has_content :: "ucd \<Rightarrow> pystr \<Rightarrow> bool" where
  "line_has_content u line = (py_strip u line \<noteq> [])"

definition row_has_content :: "ucd \<Rightarrow> cell list \<Rightarrow> bool" where
  "row_has_content u row = list_ex (\<lambda>c. py_strip u (fst c) \<noteq> []) row"

definition content_row_count_cells :: "ucd \<Rightarrow> cell list list \<Rightarrow> nat" where
  "content_row_count_cells u lines = content_row_count (row_has_content u) lines"

definition content_row_count_plain :: "ucd \<Rightarrow> pystr list \<Rightarrow> nat" where
  "content_row_count_plain u lines = content_row_count (line_has_content u) lines"

subsection \<open>\<open>_downsample_color\<close>\<close>

text \<open>The cells of a sub-rectangle as the two inner loops visit them; beyond the end of a row a blank without colours.\<close>

definition sub_cells :: "cell list list \<Rightarrow> nat \<times> nat \<Rightarrow> nat \<times> nat \<Rightarrow> cell list" where
  "sub_cells lines rs cs =
     concat (map (\<lambda>sr. let line = lines ! sr
                        in map (\<lambda>sc. if sc < length line then line ! sc else ([32], None, None))
                             [fst cs..<snd cs])
               [fst rs..<snd rs])"

text \<open>
  The tallies of the loop: the colours counted in \<open>fg_counts\<close> (foreground of the cells
  that are not a blank) and in \<open>bg_counts\<close>, in the order of the visit; the dictionaries
  built from them; and the counters \<open>filled\<close>, \<open>colored\<close> and \<open>bg_filled\<close>.
\<close>

definition fg_colors :: "cell list \<Rightarrow> rgb list" where
  "fg_colors cells =
     concat (map (\<lambda>c. if fst c \<noteq> [32] then (case fst (snd c) of Some f \<Rightarrow> [f] | None \<Rightarrow> []) else [])
               cells)"

definition bg_colors :: "cell list \<Rightarrow> rgb list" where
  "bg_colors cells = concat (map (\<lambda>c. case snd (snd c) of Some b \<Rightarrow> [b] | None \<Rightarrow> []) cells)"

definition tally :: "'k list \<Rightarrow> ('k, nat) pydict" where
  "tally ks = fold (\<lambda>k d. dict_set d k (dict_get d k 0 + 1)) ks []"

definition filled_count :: "cell list \<Rightarrow> nat" where
  "filled_count cells = length (filter (\<lambda>c. fst c \<noteq> [32]) cells)"

text \<open>
  \<open>max(d.items(), key=lambda kv: kv[1])[0]\<close>: the first key with the greatest count in
  the order of the dictionary. It is only called on a dictionary that is not empty.
\<close>

fun max_key_from :: "'k \<times> nat \<Rightarrow> ('k \<times> nat) list \<Rightarrow> 'k" where
  "max_key_from best [] = fst best"
| "max_key_from best (kv # d) = max_key_from (if snd best < snd kv then kv else best) d"

definition max_key :: "('k, nat) pydict \<Rightarrow> 'k option" where
  "max_key d = (case d of [] \<Rightarrow> None | kv # rest \<Rightarrow> Some (max_key_from kv rest))"

text \<open>The three tests on a sub-rectangle, and the output tuple.\<close>

definition fill_ok :: "cell list \<Rightarrow> bool" where
  "fill_ok cells =
     (filled_count cells > 0
      \<and> real (filled_count cells) / real (max (length cells) 1) \<ge> FILL_THRESHOLD)"

definition color_ok :: "cell list \<Rightarrow> bool" where
  "color_ok cells =
     (tally (fg_colors cells) \<noteq> []
      \<and> real (length (fg_colors cells)) / real (max (filled_count cells) 1) \<ge> COLOR_THRESHOLD
      \<and> real (length (fg_colors cells)) / real (max (length cells) 1) \<ge> COLOR_TOTAL_THRESHOLD)"

definition color_cell :: "cell list \<Rightarrow> mask_cell" where
  "color_cell cells =
     (if fill_ok cells \<or> length (bg_colors cells) > 0
      then Cell3 True
             (if color_ok cells then max_key (tally (fg_colors cells)) else None)
             (if tally (bg_colors cells) \<noteq> [] then max_key (tally (bg_colors cells)) else None)
      else Cell3 False None None)"

definition downsample_color :: "cell list list \<Rightarrow> int \<Rightarrow> int \<Rightarrow> mask_cell list list" where
  "downsample_color lines cols rows =
     (if rows \<le> 0 \<or> cols \<le> 0 then []
      else if lines = [] then replicate (nat rows) (replicate (nat cols) (Cell2 False None))
      else
        let max_len = max_len_of lines; src_rows = length lines
        in map (\<lambda>r. map (\<lambda>c. color_cell (sub_cells lines (span r src_rows (nat rows))
                                          (span c max_len (nat cols))))
                      [0..<nat cols])
             [0..<nat rows])"

subsection \<open>\<open>render_block_preview\<close>\<close>

text \<open>The colour mode: a string; any string other than the four modes means \<open>"both"\<close>.\<close>

datatype color_mode = ModeNone | ModeFg | ModeBg | ModeBoth

definition mode_of :: "pystr \<Rightarrow> color_mode" where
  "mode_of s =
     (if s = [110, 111, 110, 101] then ModeNone
      else if s = [102, 103] then ModeFg
      else if s = [98, 103] then ModeBg
      else ModeBoth)"

text \<open>The escape sequences \<open>ESC [ 38;2;r;g;b m\<close>, \<open>ESC [ 48;2;r;g;b m\<close> and \<open>ESC [ 0 m\<close>.\<close>

definition sgr_rgb :: "nat \<Rightarrow> rgb \<Rightarrow> pystr" where
  "sgr_rgb which c =
     (case c of (r, g, b) \<Rightarrow>
        [27, 91] @ digits_of which @ [59, 50, 59] @ py_str_int r @ [59] @ py_str_int g @ [59]
        @ py_str_int b @ [109])"

definition sgr_reset :: pystr where "sgr_reset = [27, 91, 48, 109]"

text \<open>
  The glyph and the colours of one output cell from the tuples of the upper and the
  lower mask row. Unpacking a tuple of two components into three names raises
  \<open>ValueError\<close>.
\<close>

definition swap_bg :: "rgb option \<times> rgb option \<Rightarrow> rgb option \<times> rgb option" where
  "swap_bg p = (if fst p = None \<and> snd p \<noteq> None then (snd p, None) else p)"

definition glyph_of :: "mask_cell \<Rightarrow> mask_cell \<Rightarrow> error + (nat \<times> rgb option \<times> rgb option)" where
  "glyph_of upper lower =
     (case (upper, lower) of
        (Cell3 up upf upb, Cell3 lo lof lob) \<Rightarrow>
          if up \<and> lo
          then Inr (0x2588, swap_bg (case upf of Some f \<Rightarrow> Some f | None \<Rightarrow> lof,
                                      case upb of Some b \<Rightarrow> Some b | None \<Rightarrow> lob))
          else if up then Inr (0x2580, swap_bg (upf, upb))
          else if lo then Inr (0x2584, swap_bg (lof, lob))
          else Inr (32, None, None)
      | _ \<Rightarrow> Inl ValueError)"

definition emit_cell :: "color_mode \<Rightarrow> nat \<times> rgb option \<times> rgb option \<Rightarrow> pystr" where
  "emit_cell mode g =
     (case g of (ch, fg, bg) \<Rightarrow>
        if mode \<noteq> ModeNone
        then
          let seq = (if (mode = ModeFg \<or> mode = ModeBoth) \<and> fg \<noteq> None
                     then sgr_rgb 38 (the fg) else [])
                    @ (if (mode = ModeBg \<or> mode = ModeBoth) \<and> bg \<noteq> None
                       then sgr_rgb 48 (the bg) else [])
          in if seq \<noteq> [] then seq @ [ch] @ sgr_reset else sgr_reset @ [ch]
        else sgr_reset @ [ch])"

text \<open>\<open>mask[k] if k < len(mask) else [filler] * cols\<close>\<close>

definition mask_row :: "'a list list \<Rightarrow> nat \<Rightarrow> nat \<Rightarrow> 'a \<Rightarrow> 'a list" where
  "mask_row m k cols filler = (if k < length m then m ! k else replicate cols filler)"

text \<open>Sequencing a list of computations that may raise, in order.\<close>

fun emap :: "('a \<Rightarrow> error + 'b) \<Rightarrow> 'a list \<Rightarrow> error + 'b list" where
  "emap f [] = Inr []"
| "emap f (x # xs) = ebind (f x) (\<lambda>y. ebind (emap f xs) (\<lambda>ys. Inr (y # ys)))"

text \<open>The rendering of a colour mask and of a plain mask into \<open>rows\<close> lines.\<close>

definition render_color_mask :: "color_mode \<Rightarrow> mask_cell list list \<Rightarrow> nat \<Rightarrow> nat \<Rightarrow> error + pystr list" where
  "render_color_mask mode m cols rows =
     emap (\<lambda>r. let upper = mask_row m (r * 2) cols (Cell3 False None None);
                   lower = mask_row m (r * 2 + 1) cols (Cell3 False None None)
               in ebind (emap (\<lambda>c. ebind (glyph_of (upper ! c) (lower ! c))
                                      (\<lambda>g. Inr (emit_cell mode g)))
                           [0..<cols])
                    (\<lambda>parts. Inr (concat parts)))
       [0..<rows]"

definition plain_glyph :: "bool \<Rightarrow> bool \<Rightarrow> nat" where
  "plain_glyph up lo =
     (if up \<and> lo then 0x2588 else if up then 0x2580 else if lo then 0x2584 else 32)"

definition render_plain_mask :: "bool list list \<Rightarrow> nat \<Rightarrow> nat \<Rightarrow> pystr list" where
  "render_plain_mask m cols rows =
     map (\<lambda>r. let upper = mask_row m (r * 2) cols False;
                  lower = mask_row m (r * 2 + 1) cols False
              in map (\<lambda>c. plain_glyph (upper ! c) (lower ! c)) [0..<cols])
       [0..<rows]"

text \<open>\<open>"\x1b[" in line\<close>\<close>

fun has_csi :: "pystr \<Rightarrow> bool" where
  "has_csi (a # b # xs) = ((a = 27 \<and> b = 91) \<or> has_csi (b # xs))"
| "has_csi [a] = False"
| "has_csi [] = False"

text \<open>
  What the two paths hand to the downsampling: the rows up to the content height, and
  the number of mask rows asked for, \<open>effective_rows = min(content_rows, rows * 2)\<close>.
\<close>

definition effective_rows :: "nat \<Rightarrow> int \<Rightarrow> int" where
  "effective_rows content_rows rows = min (int content_rows) (rows * 2)"

definition plain_source :: "ucd \<Rightarrow> pystr list \<Rightarrow> pystr list" where
  "plain_source u lines = take (content_row_count_plain u lines) lines"

definition plain_mask :: "ucd \<Rightarrow> pystr list \<Rightarrow> int \<Rightarrow> int \<Rightarrow> bool list list" where
  "plain_mask u lines cols rows =
     downsample_mask (plain_source u lines) cols
       (effective_rows (content_row_count_plain u lines) rows)"

definition color_source :: "ucd \<Rightarrow> cell list list \<Rightarrow> cell list list" where
  "color_source u ansi_lines = take (content_row_count_cells u ansi_lines) ansi_lines"

definition color_mask :: "ucd \<Rightarrow> cell list list \<Rightarrow> int \<Rightarrow> int \<Rightarrow> mask_cell list list" where
  "color_mask u ansi_lines cols rows =
     downsample_color (color_source u ansi_lines) cols
       (effective_rows (content_row_count_cells u ansi_lines) rows)"

definition render_block_preview :: "ucd \<Rightarrow> pystr list \<Rightarrow> int \<Rightarrow> int \<Rightarrow> pystr \<Rightarrow> error + pystr list" where
  "render_block_preview u lines cols rows color_mode =
     (if rows \<le> 0 \<or> cols \<le> 0 then Inr []
      else if list_ex has_csi lines
      then ebind (parse_ansi_lines u lines)
             (\<lambda>ansi_lines. render_color_mask (mode_of color_mode)
                              (color_mask u ansi_lines cols rows) (nat cols) (nat rows))
      else Inr (render_plain_mask (plain_mask u lines cols rows) (nat cols) (nat rows)))"

text \<open>
  The entries of the character database for U+00B2, U+00B3 and U+00B9 (superscript
  two, three and one): digits for \<open>isdigit\<close>, without a decimal value for \<open>int\<close>; and
  for U+0085 and U+00A0: white space.
\<close>

definition latin1_ucd :: ucd where
  "latin1_ucd = \<lparr>uni_space = (\<lambda>c. c = 0x85 \<or> c = 0xA0), uni_decimal = (\<lambda>_. None),
     uni_digit = (\<lambda>c. c = 0xB2 \<or> c = 0xB3 \<or> c = 0xB9),
     uni_combining = (\<lambda>_. False), uni_powerline = (\<lambda>_. False), uni_wide = (\<lambda>_. False)\<rparr>"

text \<open>
  A row of ten cells for concrete instances: one glyph in red on blue, then nine
  blanks without colours.
\<close>

definition example_sparse_row :: "cell list" where
  "example_sparse_row =
     ([120], Some (255, 0, 0), Some (0, 0, 255)) # replicate 9 ([32], None, None)"

text \<open>
  Ten cells that all hold a glyph, the first \<open>n\<close> of them with the foreground colour
  \<open>col\<close> and the others without a colour.
\<close>

definition example_colored_cells :: "nat \<Rightarrow> rgb \<Rightarrow> cell list" where
  "example_colored_cells n col =
     replicate n ([120], Some col, None) @ replicate (10 - n) ([120], None, None)"

text \<open>
  Four glyphs with the foreground colours red, blue, blue, red: the two colours are
  equally frequent, and red is seen first.
\<close>

definition example_tie_cells :: "cell list" where
  "example_tie_cells =
     [([120], Some (255, 0, 0), None), ([120], Some (0, 0, 255), None),
      ([120], Some (0, 0, 255), None), ([120], Some (255, 0, 0), None)]"

chapter \<open>Properties\<close>

section \<open>MRU reconciliation\<close>

subsection \<open>Sorting with a lexicographic key\<close>

lemma insort_key_map:
  "insort_key f (g x) (map g xs) = map g (insort_key (\<lambda>a. f (g a)) x xs)"
  by (induction xs) simp_all

lemma sort_key_map: "sort_key f (map g xs) = map g (sort_key (\<lambda>a. f (g a)) xs)"
  by (induction xs) (simp_all add: insort_key_map)

lemma insort_key_lex:
  "\<forall>y\<in>set ys. g x \<le> g y \<Longrightarrow> insort_key (\<lambda>x. (f x, g x)) x ys = insort_key f x ys"
  by (induction ys) auto

lemma sort_key_lex:
  "sorted (map g xs) \<Longrightarrow> sort_key (\<lambda>x. (f x, g x)) xs = sort_key f xs"
proof (induction xs)
  case Nil
  then show ?case by simp
next
  case (Cons x xs)
  then have le: "\<forall>y\<in>set (sort_key f xs). g x \<le> g y" by simp
  from Cons have "sort_key (\<lambda>x. (f x, g x)) xs = sort_key f xs" by simp
  then show ?case using insort_key_lex [OF le] by simp
qed

subsection \<open>Dictionaries built from lists with distinct keys\<close>

lemma dict_set_fresh: "k \<notin> fst ` set d \<Longrightarrow> dict_set d k v = d @ [(k, v)]"
  by (induction d) auto

lemma fold_dict_set_fresh:
  "distinct (map kf xs) \<Longrightarrow> kf ` set xs \<inter> fst ` set d = {} \<Longrightarrow>
   fold (\<lambda>t d. dict_set d (kf t) (vf t)) xs d = d @ map (\<lambda>t. (kf t, vf t)) xs"
proof (induction xs arbitrary: d)
  case Nil
  then show ?case by simp
next
  case (Cons x xs)
  from Cons.prems have fresh: "kf x \<notin> fst ` set d" by auto
  have step: "dict_set d (kf x) (vf x) = d @ [(kf x, vf x)]"
    by (rule dict_set_fresh [OF fresh])
  from Cons.prems have "kf ` set xs \<inter> fst ` set (d @ [(kf x, vf x)]) = {}" by auto
  with Cons have "fold (\<lambda>t d. dict_set d (kf t) (vf t)) xs (d @ [(kf x, vf x)])
        = (d @ [(kf x, vf x)]) @ map (\<lambda>t. (kf t, vf t)) xs"
    by simp
  then show ?case by (simp add: step)
qed

lemma dict_set_replace:
  "distinct (map kf xs) \<Longrightarrow> a \<in> kf ` set xs \<Longrightarrow>
   dict_set (map (\<lambda>t. (kf t, vf t)) xs) a v
     = map (\<lambda>t. (kf t, if kf t = a then v else vf t)) xs"
proof (induction xs)
  case Nil
  then show ?case by simp
next
  case (Cons x xs)
  show ?case
  proof (cases "kf x = a")
    case True
    with Cons.prems have "a \<notin> kf ` set xs" by auto
    then have "map (\<lambda>t. (kf t, if kf t = a then v else vf t)) xs = map (\<lambda>t. (kf t, vf t)) xs"
      by (intro map_cong) auto
    with True show ?thesis by simp
  next
    case False
    with Cons show ?thesis by auto
  qed
qed

lemma map_of_keyed:
  "distinct (map kf xs) \<Longrightarrow> t \<in> set xs \<Longrightarrow> map_of (map (\<lambda>t. (kf t, vf t)) xs) (kf t) = Some (vf t)"
  by (induction xs) (auto simp: image_iff)


subsection \<open>What \<open>_reconcile_mru\<close> computes\<close>

lemma first_active_in: "first_active ts = Some a \<Longrightarrow> a \<in> tab_id ` set ts"
  by (induction ts) (auto split: if_splits)

lemma active_tab_id_in: "active_tab_id ts = Some a \<Longrightarrow> a \<in> tab_id ` set ts"
  by (auto simp: active_tab_id_def split: option.splits list.splits dest: first_active_in)

lemma force_active_keyed:
  assumes d: "distinct (map tab_id ts)"
  shows "force_active now ts (map (\<lambda>t. (tab_id t, vf t)) ts)
         = map (\<lambda>t. (tab_id t,
                  if active_tab_id ts = Some (tab_id t) then max (vf t) now else vf t)) ts"
proof (cases "active_tab_id ts")
  case None
  then show ?thesis by (simp add: force_active_def)
next
  case (Some a)
  then have "a \<in> tab_id ` set ts" by (rule active_tab_id_in)
  then obtain t0 where t0: "t0 \<in> set ts" "tab_id t0 = a" by auto
  have get: "dict_get (map (\<lambda>t. (tab_id t, vf t)) ts) a 0 = vf t0"
    using map_of_keyed [OF d t0(1), of vf] t0(2) by (simp add: dict_get_def)
  have inj: "inj_on tab_id (set ts)" using d by (simp add: distinct_map)
  have uniq: "\<And>t. t \<in> set ts \<Longrightarrow> tab_id t = a \<Longrightarrow> t = t0"
    using inj_onD [OF inj] t0 by simp
  have "dict_set (map (\<lambda>t. (tab_id t, vf t)) ts) a (max (vf t0) now)
        = map (\<lambda>t. (tab_id t, if tab_id t = a then max (vf t0) now else vf t)) ts"
  proof (rule dict_set_replace [OF d])
    show "a \<in> tab_id ` set ts" using t0 by auto
  qed
  also have "\<dots> = map (\<lambda>t. (tab_id t, if Some a = Some (tab_id t) then max (vf t) now else vf t)) ts"
    by (rule map_cong) (auto dest: uniq)
  finally show ?thesis using Some by (simp add: force_active_def get)
qed

lemma cache_step_fresh:
  "k \<notin> fst ` set d \<Longrightarrow>
   cache_step lu k d
     = d @ [(k, case map_of lu k of Some x \<Rightarrow> x | None \<Rightarrow> 0)]"
proof -
  assume fresh: "k \<notin> fst ` set d"
  then have none: "map_of d k = None" by (simp add: map_of_eq_None_iff)
  show ?thesis
  proof (cases "map_of lu k")
    case None
    then show ?thesis using fresh none by (simp add: cache_step_def dict_set_fresh)
  next
    case (Some v)
    then show ?thesis using fresh by (simp add: cache_step_def dict_set_fresh)
  qed
qed

lemma fold_cache_fresh:
  "distinct ks \<Longrightarrow> set ks \<inter> fst ` set d = {} \<Longrightarrow>
   fold (cache_step lu) ks d
   = d @ map (\<lambda>tid. (tid, case map_of lu tid of Some x \<Rightarrow> x | None \<Rightarrow> 0)) ks"
proof (induction ks arbitrary: d)
  case Nil
  then show ?case by simp
next
  case (Cons k ks)
  let ?v = "case map_of lu k of Some x \<Rightarrow> x | None \<Rightarrow> (0::real)"
  from Cons.prems have fresh: "k \<notin> fst ` set d" by auto
  from Cons.prems have "set ks \<inter> fst ` set (d @ [(k, ?v)]) = {}" "distinct ks" by auto
  from Cons.IH [OF this(2) this(1)] show ?case by (simp add: cache_step_fresh [OF fresh])
qed

lemma base_rank_of_keyed:
  "distinct order \<Longrightarrow>
   base_rank_of order = map (\<lambda>p. (snd p, int (fst p))) (enumerate 0 order)"
proof -
  assume d: "distinct order"
  have "distinct (map snd (enumerate 0 order))" using d by (simp add: enumerate_eq_zip)
  from fold_dict_set_fresh [OF this, of "[]" "\<lambda>p. int (fst p)"]
  show ?thesis by (simp add: base_rank_of_def case_prod_unfold)
qed

lemma base_rank_nth:
  assumes "distinct order" "i < length order"
  shows "dict_get (base_rank_of order) (order ! i) dflt = int i"
proof -
  have d: "distinct (map snd (enumerate 0 order))" using assms by (simp add: enumerate_eq_zip)
  have m: "(i, order ! i) \<in> set (enumerate 0 order)"
    using assms by (auto simp: in_set_enumerate_eq)
  from map_of_keyed [OF d m, of "\<lambda>p. int (fst p)"]
  show ?thesis by (simp add: base_rank_of_keyed [OF assms(1)] dict_get_def)
qed

lemma base_rank_sorted:
  assumes d: "distinct (map tab_id ts)"
  shows "sorted (map (\<lambda>t. dict_get (base_rank_of (map tab_id ts)) (tab_id t) dflt) ts)"
proof -
  have "\<And>i. i < length ts \<Longrightarrow>
          dict_get (base_rank_of (map tab_id ts)) (tab_id (ts ! i)) dflt = int i"
    using base_rank_nth [OF d] by simp
  then show ?thesis by (simp add: sorted_iff_nth_mono)
qed

lemma by_id_of_keyed:
  "distinct (map tab_id ts) \<Longrightarrow> by_id_of ts = map (\<lambda>t. (tab_id t, t)) ts"
  using fold_dict_set_fresh [of tab_id ts "[]" "\<lambda>t. t"] by (simp add: by_id_of_def)

lemma tabs_in_order_keyed:
  assumes d: "distinct (map tab_id ts)"
  shows "set ys \<subseteq> set ts \<Longrightarrow>
         tabs_in_order (by_id_of ts) (map (\<lambda>t. (tab_id t, vf t)) ys) = ys"
proof (induction ys)
  case Nil
  then show ?case by (simp add: tabs_in_order_def)
next
  case (Cons y ys)
  then have "y \<in> set ts" by simp
  from map_of_keyed [OF d this, of "\<lambda>t. t"]
  have "map_of (by_id_of ts) (tab_id y) = Some y" by (simp add: by_id_of_keyed [OF d])
  with Cons show ?case by (simp add: tabs_in_order_def)
qed

lemma reordered_keyed:
  assumes d: "distinct (map tab_id ts)"
  shows "tabs_in_order (by_id_of ts)
           (sort_key (mru_key (base_rank_of (map tab_id ts))) (map (\<lambda>t. (tab_id t, vf t)) ts))
         = sort_key (\<lambda>t. - vf t) ts"
proof -
  let ?rank = "\<lambda>t. dict_get (base_rank_of (map tab_id ts)) (tab_id t) (10 ^ 9)"
  have "sort_key (mru_key (base_rank_of (map tab_id ts))) (map (\<lambda>t. (tab_id t, vf t)) ts)
        = map (\<lambda>t. (tab_id t, vf t)) (sort_key (\<lambda>t. (- vf t, ?rank t)) ts)"
    by (simp add: sort_key_map mru_key_def)
  also have "sort_key (\<lambda>t. (- vf t, ?rank t)) ts = sort_key (\<lambda>t. - vf t) ts"
    by (rule sort_key_lex [OF base_rank_sorted [OF d]])
  finally show ?thesis using tabs_in_order_keyed [OF d, of "sort_key (\<lambda>t. - vf t) ts" vf]
    by simp
qed

lemma reconcile_mru_sorted:
  assumes d: "distinct (map tab_id ts)"
  shows "reconcile_mru now ts persisted
         = (sort_key (\<lambda>t. - stored_score now ts persisted t) ts,
            map (\<lambda>t. (tab_id t, stored_score now ts persisted t)) ts)"
proof (cases "list_ex (\<lambda>t. last_focused t \<noteq> None) ts")
  case True
  let ?b = "\<lambda>t. case last_focused t of Some x \<Rightarrow> x | None \<Rightarrow> (0::real)"
  let ?s = "stored_score now ts persisted"
  have out0: "focus_scores ts = map (\<lambda>t. (tab_id t, ?b t)) ts"
    using fold_dict_set_fresh [OF d, of "[]" ?b] by (simp add: focus_scores_def)
  have sc: "\<And>t. (if active_tab_id ts = Some (tab_id t) then max (?b t) now else ?b t) = ?s t"
    using True by (simp add: stored_score_def base_score_def)
  have out: "force_active now ts (map (\<lambda>t. (tab_id t, ?b t)) ts) = map (\<lambda>t. (tab_id t, ?s t)) ts"
    by (simp add: force_active_keyed [OF d] sc)
  have ret: "fold (\<lambda>tid d. dict_set d tid (dict_get (map (\<lambda>t. (tab_id t, ?s t)) ts) tid 0))
               (map tab_id ts) [] = map (\<lambda>t. (tab_id t, ?s t)) ts"
  proof -
    have "fold (\<lambda>tid d. dict_set d tid (dict_get (map (\<lambda>t. (tab_id t, ?s t)) ts) tid 0))
               (map tab_id ts) []
          = map (\<lambda>tid. (tid, dict_get (map (\<lambda>t. (tab_id t, ?s t)) ts) tid 0)) (map tab_id ts)"
      using fold_dict_set_fresh [of "\<lambda>k. k" "map tab_id ts" "[]"
               "\<lambda>tid. dict_get (map (\<lambda>t. (tab_id t, ?s t)) ts) tid 0"] d by simp
    also have "\<dots> = map (\<lambda>t. (tab_id t, ?s t)) ts"
      using map_of_keyed [OF d, of _ ?s] by (simp add: dict_get_def)
    finally show ?thesis .
  qed
  show ?thesis
    using True by (simp add: reconcile_mru_def Let_def out0 out ret reordered_keyed [OF d])
next
  case False
  let ?b = "\<lambda>t. case map_of persisted (tab_id t) of Some x \<Rightarrow> x | None \<Rightarrow> (0::real)"
  let ?s = "stored_score now ts persisted"
  have out0: "cache_scores persisted (map tab_id ts) = map (\<lambda>t. (tab_id t, ?b t)) ts"
    using fold_cache_fresh [of "map tab_id ts" "[]" persisted] d
    by (simp add: cache_scores_def o_def)
  have sc: "\<And>t. (if active_tab_id ts = Some (tab_id t) then max (?b t) now else ?b t) = ?s t"
    using False by (simp add: stored_score_def base_score_def)
  have out: "force_active now ts (map (\<lambda>t. (tab_id t, ?b t)) ts) = map (\<lambda>t. (tab_id t, ?s t)) ts"
    by (simp add: force_active_keyed [OF d] sc)
  show ?thesis
    using False by (simp add: reconcile_mru_def Let_def out0 out reordered_keyed [OF d])
qed


lemma reconcile_mru_example:
  assumes ids: "tab_id t1 = 1" "tab_id t2 = 2" "tab_id t3 = 3"
    and act: "\<not> is_active t1" "\<not> is_active t2" "is_active t3"
    and foc: "last_focused t1 = None" "last_focused t2 = None" "last_focused t3 = None"
    and per: "map_of persisted 1 = Some 10" "map_of persisted 2 = Some 5"
    and now: "10 < now"
  shows "fst (reconcile_mru now [t1, t2, t3] persisted) = [t3, t1, t2]"
proof -
  have d: "distinct (map tab_id [t1, t2, t3])" using ids by simp
  have a: "active_tab_id [t1, t2, t3] = Some 3"
    using ids act by (simp add: active_tab_id_def)
  have nf: "\<not> list_ex (\<lambda>t. last_focused t \<noteq> None) [t1, t2, t3]" using foc by simp
  have s1: "stored_score now [t1, t2, t3] persisted t1 = 10"
    using ids per foc by (simp add: stored_score_def base_score_def a)
  have s2: "stored_score now [t1, t2, t3] persisted t2 = 5"
    using ids per foc by (simp add: stored_score_def base_score_def a)
  have s3: "stored_score now [t1, t2, t3] persisted t3 \<ge> now"
    using ids by (simp add: stored_score_def a)
  show ?thesis
    using s3 now by (simp add: reconcile_mru_sorted [OF d] s1 s2)
qed

lemma first_active_filter:
  "first_active ts = (case filter is_active ts of [] \<Rightarrow> None | x # _ \<Rightarrow> Some (tab_id x))"
  by (induction ts) simp_all

lemma active_tab_id_flagged:
  assumes d: "distinct (map tab_id ts)" and a: "length (filter is_active ts) = 1"
    and t: "t \<in> set ts"
  shows "active_tab_id ts = Some (tab_id t) \<longleftrightarrow> is_active t"
proof -
  from a obtain x where x: "filter is_active ts = [x]"
    by (cases "filter is_active ts") simp_all
  then have "x \<in> set (filter is_active ts)" by simp
  then have xs: "x \<in> set ts" "is_active x" by simp_all
  have act: "active_tab_id ts = Some (tab_id x)"
    by (simp add: active_tab_id_def first_active_filter x)
  have inj: "inj_on tab_id (set ts)" using d by (simp add: distinct_map)
  show ?thesis
  proof
    assume "active_tab_id ts = Some (tab_id t)"
    with act have "tab_id t = tab_id x" by simp
    from inj_onD [OF inj this t xs(1)] have "t = x" .
    with xs(2) show "is_active t" by simp
  next
    assume "is_active t"
    with t have "t \<in> set (filter is_active ts)" by simp
    with x have "t = x" by simp
    with act show "active_tab_id ts = Some (tab_id t)" by simp
  qed
qed

lemma stored_score_flagged:
  assumes "distinct (map tab_id ts)" "length (filter is_active ts) = 1" "t \<in> set ts"
  shows "stored_score now ts persisted t = mru_score now ts persisted t"
  using active_tab_id_flagged [OF assms] by (simp add: stored_score_def mru_score_def)

text \<open>
  Outside the lists with one flagged tab the tab that is raised is still the one of
  \<open>_active_tab_id\<close>: with no tab flagged it is the first tab of the list.
\<close>

lemma reconcile_mru_no_flagged_tab:
  "snd (reconcile_mru 100 [example_tab 4 False, example_tab 9 False, example_tab 6 False]
          [(4, 7), (9, 7), (6, 7)])
   = [(4, 100), (9, 7), (6, 7)]"
  by (simp add: reconcile_mru_def example_tab_def base_rank_of_def by_id_of_def mru_key_def
      tabs_in_order_def force_active_def active_tab_id_def dict_get_def cache_scores_def
      cache_step_def enumerate_eq_zip)

text \<open>
  C4. For a host-reported tab list with distinct ids in which one tab is flagged active,
  \<open>_reconcile_mru\<close> stores for every tab the score of the specification
  (\<^const>\<open>mru_score\<close>: native time stamps if any tab has one, else the persisted map,
  missing entries counting 0, and the score of the tab flagged active raised to
  \<open>max(existingScore, now)\<close>); the new tab list is a permutation of the old one, in
  descending order of score, and tabs of equal score keep their order in the
  host-reported list. For tabs \<open>[1, 2, 3]\<close> without native time stamps, tab 3 active, and
  any persisted map that holds \<open>1: 10\<close> and \<open>2: 5\<close> (whatever its order and other
  entries), the result is \<open>[3, 1, 2]\<close> once the clock reading exceeds 10.
\<close>

theorem reconcile_mru_spec:
  assumes d: "distinct (map tab_id ts)" and a: "length (filter is_active ts) = 1"
  shows "(case reconcile_mru now ts persisted of
            (ts', out) \<Rightarrow>
              (\<forall>t\<in>set ts. map_of out (tab_id t) = Some (mru_score now ts persisted t))
              \<and> map fst out = map tab_id ts
              \<and> mset ts' = mset ts
              \<and> sorted_wrt (\<lambda>a b. mru_score now ts persisted a \<ge> mru_score now ts persisted b) ts'
              \<and> (\<forall>v. filter (\<lambda>t. mru_score now ts persisted t = v) ts'
                       = filter (\<lambda>t. mru_score now ts persisted t = v) ts))
         \<and> (\<forall>t\<in>set ts. mru_score now ts persisted t
                = (if is_active t then max (base_score ts persisted t) now
                   else base_score ts persisted t))
         \<and> (tab_id t1 = 1 \<and> tab_id t2 = 2 \<and> tab_id t3 = 3
              \<and> \<not> is_active t1 \<and> \<not> is_active t2 \<and> is_active t3
              \<and> last_focused t1 = None \<and> last_focused t2 = None \<and> last_focused t3 = None
              \<and> map_of p 1 = Some 10 \<and> map_of p 2 = Some 5 \<and> 10 < now'
            \<longrightarrow> fst (reconcile_mru now' [t1, t2, t3] p) = [t3, t1, t2])"
proof -
  let ?c = "stored_score now ts persisted"
  let ?s = "mru_score now ts persisted"
  let ?ts' = "sort_key (\<lambda>t. - ?c t) ts"
  have cs: "\<And>t. t \<in> set ts \<Longrightarrow> ?c t = ?s t"
    by (rule stored_score_flagged [OF d a])
  have st: "set ?ts' = set ts" by simp
  have r: "reconcile_mru now ts persisted = (?ts', map (\<lambda>t. (tab_id t, ?c t)) ts)"
    by (rule reconcile_mru_sorted [OF d])
  have scores: "\<forall>t\<in>set ts. map_of (map (\<lambda>t. (tab_id t, ?c t)) ts) (tab_id t) = Some (?s t)"
    using map_of_keyed [OF d, of _ ?c] cs by simp
  have keys: "map fst (map (\<lambda>t. (tab_id t, ?c t)) ts) = map tab_id ts" by (simp add: o_def)
  have perm: "mset ?ts' = mset ts" by simp
  have "sorted (map (\<lambda>t. - ?c t) ?ts')" by (rule sorted_sort_key)
  then have "sorted_wrt (\<lambda>a b. ?c a \<ge> ?c b) ?ts'" by (simp add: sorted_map)
  then have desc: "sorted_wrt (\<lambda>a b. ?s a \<ge> ?s b) ?ts'"
    by (rule sorted_wrt_mono_rel [rotated]) (simp add: cs)
  have stable: "\<forall>v. filter (\<lambda>t. ?s t = v) ?ts' = filter (\<lambda>t. ?s t = v) ts"
  proof
    fix v
    have "filter (\<lambda>t. - ?c t = - v) ?ts' = filter (\<lambda>t. - ?c t = - v) ts"
      by (rule sort_key_stable)
    then have "filter (\<lambda>t. ?c t = v) ?ts' = filter (\<lambda>t. ?c t = v) ts" by simp
    moreover have "filter (\<lambda>t. ?s t = v) ?ts' = filter (\<lambda>t. ?c t = v) ?ts'"
      by (rule filter_cong [OF refl]) (simp add: cs)
    moreover have "filter (\<lambda>t. ?s t = v) ts = filter (\<lambda>t. ?c t = v) ts"
      by (rule filter_cong [OF refl]) (simp add: cs)
    ultimately show "filter (\<lambda>t. ?s t = v) ?ts' = filter (\<lambda>t. ?s t = v) ts" by simp
  qed
  have sc: "\<forall>t\<in>set ts. ?s t
                = (if is_active t then max (base_score ts persisted t) now
                   else base_score ts persisted t)"
    by (simp add: mru_score_def)
  have ex: "tab_id t1 = 1 \<and> tab_id t2 = 2 \<and> tab_id t3 = 3
              \<and> \<not> is_active t1 \<and> \<not> is_active t2 \<and> is_active t3
              \<and> last_focused t1 = None \<and> last_focused t2 = None \<and> last_focused t3 = None
              \<and> map_of p 1 = Some 10 \<and> map_of p 2 = Some 5 \<and> 10 < now'
            \<longrightarrow> fst (reconcile_mru now' [t1, t2, t3] p) = [t3, t1, t2]"
    using reconcile_mru_example [of t1 t2 t3 p now'] by blast
  have main: "case reconcile_mru now ts persisted of
            (ts', out) \<Rightarrow>
              (\<forall>t\<in>set ts. map_of out (tab_id t) = Some (?s t))
              \<and> map fst out = map tab_id ts
              \<and> mset ts' = mset ts
              \<and> sorted_wrt (\<lambda>a b. ?s a \<ge> ?s b) ts'
              \<and> (\<forall>v. filter (\<lambda>t. ?s t = v) ts' = filter (\<lambda>t. ?s t = v) ts)"
    unfolding r prod.case using scores keys perm desc stable by blast
  show ?thesis by (intro conjI) (rule main sc ex)+
qed

theorem reconcile_mru_spec_witness:
  "distinct (map tab_id [example_tab 1 False, example_tab 2 False, example_tab 3 True])
   \<and> length (filter is_active [example_tab 1 False, example_tab 2 False, example_tab 3 True]) = 1
   \<and> map tab_id (fst (reconcile_mru 1700000000 [example_tab 1 False, example_tab 2 False, example_tab 3 True] [(2, 5), (1, 10)]))
       = [3, 1, 2]
   \<and> snd (reconcile_mru 1700000000 [example_tab 1 False, example_tab 2 False, example_tab 3 True] [(2, 5), (1, 10)])
       = [(1, 10), (2, 5), (3, 1700000000)]"
proof -
  let ?ts = "[example_tab 1 False, example_tab 2 False, example_tab 3 True]"
  let ?p = "[(2, 5), (1, 10)] :: (int, real) pydict"
  have d: "distinct (map tab_id ?ts)" by (simp add: example_tab_def)
  have a: "length (filter is_active ?ts) = 1" by (simp add: example_tab_def)
  note T = reconcile_mru_spec [OF d a, of 1700000000 ?p "example_tab 1 False"
      "example_tab 2 False" "example_tab 3 True" ?p 1700000000]
  from T have o: "fst (reconcile_mru 1700000000 ?ts ?p)
        = [example_tab 3 True, example_tab 1 False, example_tab 2 False]"
    by (simp add: example_tab_def)
  obtain ts' out where ro: "reconcile_mru 1700000000 ?ts ?p = (ts', out)"
    by (cases "reconcile_mru 1700000000 ?ts ?p")
  from T [THEN conjunct1, unfolded ro prod.case]
  have k: "map fst out = map tab_id ?ts"
    and s: "\<forall>t\<in>set ?ts. map_of out (tab_id t) = Some (mru_score 1700000000 ?ts ?p t)"
    by blast+
  from k obtain v1 v2 v3 where out: "out = [(1, v1), (2, v2), (3, v3)]"
    by (auto simp: example_tab_def map_eq_Cons_conv)
  from s have "v1 = 10" "v2 = 5" "v3 = 1700000000"
    unfolding out by (simp_all add: example_tab_def mru_score_def base_score_def)
  with out ro have sn: "snd (reconcile_mru 1700000000 ?ts ?p) = [(1, 10), (2, 5), (3, 1700000000)]"
    by simp
  have f: "map tab_id (fst (reconcile_mru 1700000000 ?ts ?p)) = [3, 1, 2]"
    unfolding o by (simp add: example_tab_def)
  show ?thesis by (intro conjI) (rule d a f sn)+
qed
section \<open>Computations that may raise\<close>

lemma ebind_Inr [simp]: "ebind (Inr x) f = f x"
  by (simp add: ebind_def)

lemma ebind_Inl [simp]: "ebind (Inl e) f = Inl e"
  by (simp add: ebind_def)

lemma ebind_assoc: "ebind (ebind m f) g = ebind m (\<lambda>x. ebind (f x) g)"
  by (cases m) simp_all

lemma ebind_unit: "ebind m Inr = m"
  by (cases m) simp_all

lemma efold_commute:
  assumes "\<And>x s. f x (F s) = ebind (f x s) (\<lambda>s'. Inr (F s'))"
  shows "efold f xs (F s) = ebind (efold f xs s) (\<lambda>s'. Inr (F s'))"
proof (induction xs arbitrary: s)
  case Nil
  show ?case by simp
next
  case (Cons x xs)
  show ?case
  proof (cases "f x s")
    case (Inl err)
    then show ?thesis by (simp add: assms)
  next
    case (Inr s1)
    then show ?thesis by (simp add: assms Cons.IH)
  qed
qed


text \<open>The example session, as \<open>__init__\<close> builds it.\<close>

lemma example_switcher_eq:
  "example_switcher = \<lparr>tabs = [example_tab 5 True, example_tab 2 False, example_tab 7 False],
              last_used = [(5, 1700000000), (2, 0), (7, 0)], original_tab_id = Some 5,
              mru_order = [5, 2, 7], selected_index = 1,
              last_draw = 0, ctrl_down = False, start_time = 1700000000, saw_tab_event = False,
              ctrl_seen = False, mod_query_present = False, ctrl_mask = None,
              last_input_time = 1700000000, poll_ctrl_seen = False, any_key_event = False,
              ctrl_up_streak = 0, marker_seen = False, marker_sent = False,
              initial_mods_checked = False, initial_ctrl_down = False,
              preview_cache = [], preview_cache_ts = [],
              preview_queue = None, saved_mru = None, saved_previews = None,
              focus_requests = [], frames = 0\<rparr>"
    by (simp add: example_switcher_def init_switcher_def reconcile_mru_def example_tab_def base_rank_of_def
        by_id_of_def mru_key_def tabs_in_order_def force_active_def active_tab_id_def dict_get_def
        cache_scores_def cache_step_def initial_index_def enumerate_eq_zip)

section \<open>Commit and the MRU order\<close>










section \<open>A datagram on the command socket and a press of the cycle key\<close>

lemma key_flags_fields [simp]:
  "tabs (key_flags e s) = tabs s"
  "selected_index (key_flags e s) = selected_index s"
  "preview_cache (key_flags e s) = preview_cache s"
  "preview_cache_ts (key_flags e s) = preview_cache_ts s"
  "preview_queue (key_flags e s) = preview_queue s"
  "last_draw (key_flags e s) = last_draw s"
  "frames (key_flags e s) = frames s"
  by (simp_all add: key_flags_def)

lemma current_tab_id_flags [simp]: "current_tab_id (key_flags e s) = current_tab_id s"
  by (simp add: current_tab_id_def)

lemma preview_stale_flags [simp]: "preview_stale e' (key_flags e s) = preview_stale e' s"
  by (simp add: preview_stale_def fun_eq_iff)

lemma store_preview_flags: "store_preview e' t (key_flags e s) = key_flags e (store_preview e' t s)"
  by (simp add: store_preview_def key_flags_def Let_def)

lemma enqueue_flags: "enqueue tid (key_flags e s) = key_flags e (enqueue tid s)"
  by (simp add: enqueue_def key_flags_def Let_def)

lemma neighbourhood_flags [simp]: "neighbourhood (key_flags e s) = neighbourhood s"
  by (simp add: neighbourhood_def)

lemma queue_if_stale_flags:
  "queue_if_stale e' tid (key_flags e s) = key_flags e (queue_if_stale e' tid s)"
  by (simp add: queue_if_stale_def enqueue_flags)

lemma ensure_step_flags:
  "ensure_step e' idx (key_flags e s) = ebind (ensure_step e' idx s) (\<lambda>s'. Inr (key_flags e s'))"
  by (cases "py_nth (tabs s) idx") (simp_all add: ensure_step_def store_preview_flags)

lemma ensure_preview_cache_flags:
  "ensure_preview_cache e' (key_flags e s)
   = ebind (ensure_preview_cache e' s) (\<lambda>s'. Inr (key_flags e s'))"
  by (simp add: ensure_preview_cache_def efold_commute [of "ensure_step e'" "key_flags e"] ensure_step_flags)

lemma sel_update_flags:
  "(key_flags e s)\<lparr>selected_index := i\<rparr> = key_flags e (s\<lparr>selected_index := i\<rparr>)"
  by (simp add: key_flags_def)

lemma move_flags:
  "move e' d (key_flags e s) = ebind (move e' d s) (\<lambda>s'. Inr (key_flags e s'))"
proof (cases "tabs s = []")
  case True
  then show ?thesis by (simp add: move_def)
next
  case False
  show ?thesis
  proof (cases "current_tab_id s")
    case (Inl err)
    then show ?thesis using False by (simp add: move_def)
  next
    case (Inr a)
    let ?s1 = "s\<lparr>selected_index := (selected_index s + d) mod int (length (tabs s))\<rparr>"
    show ?thesis
    proof (cases "current_tab_id ?s1")
      case (Inl err)
      then show ?thesis using False Inr by (simp add: move_def sel_update_flags)
    next
      case (Inr b)
      then show ?thesis
        using False \<open>current_tab_id s = Inr a\<close>
        by (simp add: move_def sel_update_flags ensure_preview_cache_flags)
    qed
  qed
qed

lemma draw_card_step_flags:
  "draw_card_step e' t (key_flags e s)
   = ebind (draw_card_step e' t s) (\<lambda>s'. Inr (key_flags e s'))"
  by (cases "current_tab_id s") (simp_all add: draw_card_step_def queue_if_stale_flags)

lemma last_draw_update_flags:
  "(key_flags e s)\<lparr>last_draw := x\<rparr> = key_flags e (s\<lparr>last_draw := x\<rparr>)"
  by (simp add: key_flags_def)

lemma frames_update_flags:
  "(key_flags e s)\<lparr>frames := x\<rparr> = key_flags e (s\<lparr>frames := x\<rparr>)"
  by (simp add: key_flags_def)

lemma paint_flags:
  "paint e' (key_flags e s) = ebind (paint e' s) (\<lambda>s'. Inr (key_flags e s'))"
proof (cases "tabs s = []")
  case True
  then show ?thesis
    by (simp add: paint_def Let_def last_draw_update_flags frames_update_flags)
next
  case ne: False
  let ?s1 = "s\<lparr>last_draw := clock e'\<rparr>"
  show ?thesis
  proof (cases "efold (draw_card_step e') (tabs s) ?s1")
    case (Inl err)
    then show ?thesis using ne
      by (simp add: paint_def Let_def last_draw_update_flags
          efold_commute [of "draw_card_step e'" "key_flags e"] draw_card_step_flags)
  next
    case (Inr s2)
    then show ?thesis using ne
      by (simp add: paint_def Let_def last_draw_update_flags frames_update_flags
          efold_commute [of "draw_card_step e'" "key_flags e"] draw_card_step_flags)
  qed
qed

lemma draw_flags:
  "draw e' force (key_flags e s) = ebind (draw e' force s) (\<lambda>s'. Inr (key_flags e s'))"
  by (simp add: draw_def paint_flags)

lemma handle_command_flags:
  "handle_command e' c (key_flags e s)
   = ebind (handle_command e' c s) (\<lambda>s'. Inr (key_flags e s'))"
proof (cases "c = cmd_next \<or> c = cmd_prev")
  case False
  then show ?thesis by (simp add: handle_command_def)
next
  case True
  show ?thesis
  proof (cases "move e' (if c = cmd_prev then - 1 else 1) s")
    case (Inl err)
    then show ?thesis using True by (auto simp: handle_command_def move_flags)
  next
    case (Inr s1)
    then show ?thesis using True by (auto simp: handle_command_def move_flags draw_flags)
  qed
qed


lemma key_flags_idem: "key_flags e (key_flags e s) = key_flags e s"
  by (simp add: key_flags_def)

lemma handle_key_tab:
  assumes "key_code ev = TAB_CODE" "event_type ev = 1 \<or> event_type ev = 2" "\<not> ctrl ev"
  shows "handle_key e ev s
         = ebind (move e (if shift ev then - 1 else 1) (key_flags e s))
             (\<lambda>s5. ebind (draw e True s5)
                (\<lambda>s6. ebind (schedule_preview_fetch e s6) (\<lambda>s7. Inr (Running s7))))"
  using assms
  by (auto simp: handle_key_def Let_def key_flags_def TAB_CODE_def MARKER_KEY_CODE_def
      CTRL_KEY_CODES_def ESC_CODE_def ctrl_key_update_def cycle_selection_def)

lemma handle_key_legacy:
  assumes "key_code ev = - TAB_CODE"
  shows "handle_key e ev s
         = ebind (move e (- 1) (key_flags e s))
             (\<lambda>s5. ebind (draw e True s5)
                (\<lambda>s6. ebind (schedule_preview_fetch e s6) (\<lambda>s7. Inr (Running s7))))"
  using assms
  by (auto simp: handle_key_def Let_def key_flags_def TAB_CODE_def MARKER_KEY_CODE_def
      CTRL_KEY_CODES_def ESC_CODE_def ctrl_key_update_def cycle_selection_def)

lemma command_then_flags:
  "ebind (move e d (key_flags e s))
     (\<lambda>s5. ebind (draw e True s5)
        (\<lambda>s6. ebind (schedule_preview_fetch e s6) (\<lambda>s7. Inr (Running s7))))
   = ebind (ebind (move e d s) (draw e True))
       (\<lambda>s1. ebind (schedule_preview_fetch e (key_flags e s1)) (\<lambda>s2. Inr (Running s2)))"
proof (cases "move e d s")
  case (Inl err)
  then show ?thesis by (simp add: move_flags)
next
  case (Inr s1)
  show ?thesis
  proof (cases "draw e True s1")
    case (Inl err)
    then show ?thesis using Inr by (simp add: move_flags draw_flags)
  next
    case (Inr s2)
    then show ?thesis using \<open>move e d s = Inr s1\<close> by (simp add: move_flags draw_flags)
  qed
qed


lemma efold_invariant:
  assumes "\<And>x s s'. f x s = Inr s' \<Longrightarrow> g s' = g s"
  shows "efold f xs s = Inr s' \<Longrightarrow> g s' = g s"
proof (induction xs arbitrary: s)
  case Nil
  then show ?case by simp
next
  case (Cons x xs)
  then obtain s1 where s1: "f x s = Inr s1" "efold f xs s1 = Inr s'"
    by (cases "f x s") simp_all
  from Cons.IH [OF s1(2)] assms [OF s1(1)] show ?case by simp
qed

lemma store_preview_sel [simp]: "sel_and_flags (store_preview e t s) = sel_and_flags s"
  by (simp add: sel_and_flags_def store_preview_def Let_def)

lemma queue_if_stale_sel [simp]: "sel_and_flags (queue_if_stale e tid s) = sel_and_flags s"
  by (simp add: sel_and_flags_def queue_if_stale_def enqueue_def Let_def)

lemma ensure_step_sel: "ensure_step e idx s = Inr s' \<Longrightarrow> sel_and_flags s' = sel_and_flags s"
  by (cases "py_nth (tabs s) idx") (auto simp: ensure_step_def split: if_splits)

lemma draw_card_step_sel: "draw_card_step e t s = Inr s' \<Longrightarrow> sel_and_flags s' = sel_and_flags s"
  by (cases "current_tab_id s") (auto simp: draw_card_step_def)

lemma ensure_preview_cache_sel:
  "ensure_preview_cache e s = Inr s' \<Longrightarrow> sel_and_flags s' = sel_and_flags s"
  using efold_invariant [of "ensure_step e" sel_and_flags, OF ensure_step_sel]
  by (auto simp: ensure_preview_cache_def split: if_splits)

lemma move_sel:
  assumes "move e d s = Inr s'"
  shows "sel_and_flags s'
         = sel_and_flags (s\<lparr>selected_index :=
              (if tabs s = [] then selected_index s
               else (selected_index s + d) mod int (length (tabs s)))\<rparr>)"
proof (cases "tabs s = []")
  case True
  then show ?thesis using assms by (simp add: move_def)
next
  case False
  let ?s1 = "s\<lparr>selected_index := (selected_index s + d) mod int (length (tabs s))\<rparr>"
  from assms False obtain a where a: "current_tab_id s = Inr a"
    by (cases "current_tab_id s") (simp_all add: move_def)
  from assms False a obtain b where b: "current_tab_id ?s1 = Inr b"
    by (cases "current_tab_id ?s1") (simp_all add: move_def)
  from assms False a b have "ensure_preview_cache e ?s1 = Inr s'" by (simp add: move_def)
  from ensure_preview_cache_sel [OF this] show ?thesis using False by simp
qed

lemma paint_sel:
  assumes p: "paint e s = Inr s'"
  shows "sel_and_flags s' = sel_and_flags (s\<lparr>last_draw := clock e, frames := frames s + 1\<rparr>)"
proof (cases "tabs s = []")
  case True
  then show ?thesis using p by (auto simp: paint_def Let_def sel_and_flags_def)
next
  case False
  let ?s1 = "s\<lparr>last_draw := clock e\<rparr>"
  from p obtain s2 where s2: "efold (draw_card_step e) (tabs s) ?s1 = Inr s2"
    "s' = s2\<lparr>frames := frames s2 + 1\<rparr>"
    using False by (cases "efold (draw_card_step e) (tabs s) ?s1") (auto simp: paint_def Let_def)
  from efold_invariant [of "draw_card_step e" sel_and_flags, OF draw_card_step_sel s2(1)]
  show ?thesis using s2(2) by (simp add: sel_and_flags_def)
qed

lemma draw_forced_sel:
  "draw e True s = Inr s' \<Longrightarrow>
   sel_and_flags s' = sel_and_flags (s\<lparr>last_draw := clock e, frames := frames s + 1\<rparr>)"
  by (simp add: draw_def paint_sel)

lemma handle_command_sel:
  assumes "handle_command e c s = Inr s'" "c = cmd_next \<or> c = cmd_prev"
  shows "sel_and_flags s'
         = sel_and_flags (s\<lparr>selected_index :=
              (if tabs s = [] then selected_index s
               else (selected_index s + (if c = cmd_prev then - 1 else 1))
                      mod int (length (tabs s))),
              last_draw := clock e, frames := frames s + 1\<rparr>)"
proof -
  from assms obtain s1 where s1: "move e (if c = cmd_prev then - 1 else 1) s = Inr s1"
    "draw e True s1 = Inr s'"
    by (cases "move e (if c = cmd_prev then - 1 else 1) s") (auto simp: handle_command_def)
  from move_sel [OF s1(1)] draw_forced_sel [OF s1(2)] show ?thesis
    by (simp add: sel_and_flags_def)
qed

lemma schedule_step_queue:
  "schedule_step e idx s = Inr s' \<Longrightarrow> s'\<lparr>preview_queue := None\<rparr> = s\<lparr>preview_queue := None\<rparr>"
  by (cases "py_nth (tabs s) idx")
     (auto simp: schedule_step_def queue_if_stale_def enqueue_def Let_def)

lemma schedule_preview_fetch_queue:
  "schedule_preview_fetch e s = Inr s' \<Longrightarrow> s'\<lparr>preview_queue := None\<rparr> = s\<lparr>preview_queue := None\<rparr>"
  using efold_invariant [of "schedule_step e" "\<lambda>s. s\<lparr>preview_queue := None\<rparr>", OF schedule_step_queue]
  by (auto simp: schedule_preview_fetch_def Let_def split: if_splits option.splits)

lemma efold_succeeds:
  assumes "\<And>x s. x \<in> set xs \<Longrightarrow> I s \<Longrightarrow> \<exists>s'. f x s = Inr s' \<and> I s'"
    and "I s"
  shows "\<exists>s'. efold f xs s = Inr s'"
  using assms
proof (induction xs arbitrary: s)
  case Nil
  show ?case by simp
next
  case (Cons x xs)
  from Cons.prems(1) [of x s] Cons.prems(2) obtain s1 where s1: "f x s = Inr s1" "I s1"
    by auto
  have "\<exists>s'. efold f xs s1 = Inr s'"
    by (rule Cons.IH) (use Cons.prems(1) s1(2) in auto)
  then show ?case using s1(1) by simp
qed

lemma schedule_step_in_range:
  assumes "0 \<le> idx" "idx < int (length (tabs s))"
  shows "\<exists>s'. schedule_step e idx s = Inr s' \<and> tabs s' = tabs s"
  using assms
  by (simp add: schedule_step_def py_nth_def queue_if_stale_def enqueue_def Let_def)

lemma schedule_preview_fetch_in_range:
  assumes "tabs s = [] \<or> (0 \<le> selected_index s \<and> selected_index s < int (length (tabs s)))"
  shows "\<exists>s'. schedule_preview_fetch e s = Inr s'"
proof (cases "tabs s = []")
  case True
  then show ?thesis by (simp add: schedule_preview_fetch_def)
next
  case False
  define s0 where "s0 = (case preview_queue s of None \<Rightarrow> s\<lparr>preview_queue := Some []\<rparr> | Some _ \<Rightarrow> s)"
  have t0: "tabs s0 = tabs s" "selected_index s0 = selected_index s"
    by (simp_all add: s0_def split: option.splits)
  have n: "0 < int (length (tabs s))" using False by simp
  have rng: "\<And>x. x \<in> set (neighbourhood s0) \<Longrightarrow> 0 \<le> x \<and> x < int (length (tabs s))"
    using assms False n by (auto simp: neighbourhood_def Let_def t0)
  have "\<exists>s'. efold (schedule_step e) (neighbourhood s0) s0 = Inr s'"
  proof (rule efold_succeeds [where I = "\<lambda>x :: switcher. tabs x = tabs s"])
    fix x and y :: switcher
    assume "x \<in> set (neighbourhood s0)" "tabs y = tabs s"
    with rng [of x] schedule_step_in_range [of x y e]
    show "\<exists>s'. schedule_step e x y = Inr s' \<and> tabs s' = tabs s" by auto
  next
    show "tabs s0 = tabs s" by (rule t0)
  qed
  then show ?thesis using False by (simp add: schedule_preview_fetch_def s0_def Let_def)
qed

lemma schedule_after_command:
  assumes "handle_command e c s = Inr s1" "c = cmd_next \<or> c = cmd_prev"
  shows "\<exists>s2. schedule_preview_fetch e (key_flags e s1) = Inr s2"
proof -
  from handle_command_sel [OF assms]
  have t: "tabs s1 = tabs s"
    and i: "selected_index s1
            = (if tabs s = [] then selected_index s
               else (selected_index s + (if c = cmd_prev then - 1 else 1)) mod int (length (tabs s)))"
    by (simp_all add: sel_and_flags_def)
  have "tabs (key_flags e s1) = []
        \<or> (0 \<le> selected_index (key_flags e s1)
            \<and> selected_index (key_flags e s1) < int (length (tabs (key_flags e s1))))"
    using t i by (cases "tabs s = []") simp_all
  then show ?thesis by (rule schedule_preview_fetch_in_range)
qed

lemma example_command:
  "\<exists>s1. handle_command example_env cmd_next example_switcher = Inr s1"
  by (simp add: example_switcher_eq handle_command_def move_def current_tab_id_def py_nth_def
      ensure_preview_cache_def neighbourhood_def example_env_def ensure_step_def example_tab_def
      store_preview_def Let_def draw_def paint_def draw_card_step_def queue_if_stale_def
      preview_stale_def enqueue_def dict_get_def PREVIEW_REFRESH_SECS_def)


text \<open>
  C6, as stated, fails: after the datagram \<open>"next"\<close> the cycle-seen flag
  \<open>saw_tab_event\<close> is still false, after a press of the cycle key it is true.
\<close>

theorem command_not_key_counterexample:
  "map_sum id saw_tab_event (handle_command example_env cmd_next example_switcher) = Inr False
   \<and> map_sum id (saw_tab_event \<circ> outcome_state)
        (handle_key example_env (key_event TAB_CODE 1 1) example_switcher) = Inr True"
  by (simp add: example_switcher_eq handle_command_def move_def current_tab_id_def py_nth_def
      ensure_preview_cache_def neighbourhood_def example_env_def ensure_step_def example_tab_def
      store_preview_def Let_def draw_def paint_def draw_card_step_def queue_if_stale_def
      preview_stale_def enqueue_def dict_get_def PREVIEW_REFRESH_SECS_def
      handle_key_def key_event_def TAB_CODE_def MARKER_KEY_CODE_def CTRL_KEY_CODES_def
      ESC_CODE_def ctrl_def shift_def schedule_preview_fetch_def schedule_step_def
      ctrl_key_update_def cycle_selection_def)

text \<open>
  C6 (amended). For every switcher state, a press of the cycle key (respectively of
  shift and the cycle key) does what the datagram \<open>"next"\<close> (respectively \<open>"prev"\<close>) does,
  and then two things more: it sets \<open>any_key_event\<close>, \<open>last_input_time\<close> and the
  cycle-seen flag \<open>saw_tab_event\<close>, and it runs \<open>_schedule_preview_fetch\<close>, which changes
  nothing but the refresh queue and cannot raise after a datagram that did not raise.
  The datagram makes the same selection change with wrap-around and the same forced
  redraw (a frame is painted and \<open>last_draw\<close> is the clock reading) and leaves the three
  fields of the key path as they were. Both raise in the same states, with the same
  exception.
\<close>

theorem command_vs_cycle_key:
  "handle_key e (key_event TAB_CODE 1 1) s
     = ebind (handle_command e cmd_next s)
         (\<lambda>s1. ebind (schedule_preview_fetch e (key_flags e s1)) (\<lambda>s2. Inr (Running s2)))
   \<and> handle_key e (key_event TAB_CODE 2 1) s
     = ebind (handle_command e cmd_prev s)
         (\<lambda>s1. ebind (schedule_preview_fetch e (key_flags e s1)) (\<lambda>s2. Inr (Running s2)))
   \<and> (\<forall>c s1. (c = cmd_next \<or> c = cmd_prev) \<and> handle_command e c s = Inr s1 \<longrightarrow>
         tabs s1 = tabs s
         \<and> selected_index s1
             = (if tabs s = [] then selected_index s
                else (selected_index s + (if c = cmd_prev then - 1 else 1))
                       mod int (length (tabs s)))
         \<and> last_draw s1 = clock e \<and> frames s1 = frames s + 1
         \<and> saw_tab_event s1 = saw_tab_event s
         \<and> any_key_event s1 = any_key_event s
         \<and> last_input_time s1 = last_input_time s)
   \<and> (\<forall>s1 s2. schedule_preview_fetch e (key_flags e s1) = Inr s2 \<longrightarrow>
         s2 = (key_flags e s1)\<lparr>preview_queue := preview_queue s2\<rparr>)
   \<and> (\<forall>c s1. (c = cmd_next \<or> c = cmd_prev) \<and> handle_command e c s = Inr s1 \<longrightarrow>
         (\<exists>s2. schedule_preview_fetch e (key_flags e s1) = Inr s2))
   \<and> (\<forall>x. handle_key e (key_event TAB_CODE 1 1) s = Inl x
            \<longleftrightarrow> handle_command e cmd_next s = Inl x)
   \<and> (\<forall>x. handle_key e (key_event TAB_CODE 2 1) s = Inl x
            \<longleftrightarrow> handle_command e cmd_prev s = Inl x)"
proof -
  have k1: "key_code (key_event TAB_CODE 1 1) = TAB_CODE"
    "event_type (key_event TAB_CODE 1 1) = 1 \<or> event_type (key_event TAB_CODE 1 1) = 2"
    "\<not> ctrl (key_event TAB_CODE 1 1)" "\<not> shift (key_event TAB_CODE 1 1)"
    by (simp_all add: key_event_def ctrl_def shift_def)
  have nxt: "handle_key e (key_event TAB_CODE 1 1) s
     = ebind (handle_command e cmd_next s)
         (\<lambda>s1. ebind (schedule_preview_fetch e (key_flags e s1)) (\<lambda>s2. Inr (Running s2)))"
    using k1(4)
    by (simp add: handle_key_tab [OF k1(1,2,3)] command_then_flags handle_command_def
        cmd_next_def cmd_prev_def)
  have k2: "key_code (key_event TAB_CODE 2 1) = TAB_CODE"
    "event_type (key_event TAB_CODE 2 1) = 1 \<or> event_type (key_event TAB_CODE 2 1) = 2"
    "\<not> ctrl (key_event TAB_CODE 2 1)" "shift (key_event TAB_CODE 2 1)"
    by (simp_all add: key_event_def ctrl_def shift_def)
  have prv: "handle_key e (key_event TAB_CODE 2 1) s
     = ebind (handle_command e cmd_prev s)
         (\<lambda>s1. ebind (schedule_preview_fetch e (key_flags e s1)) (\<lambda>s2. Inr (Running s2)))"
    using k2(4)
    by (simp add: handle_key_tab [OF k2(1,2,3)] command_then_flags handle_command_def
        cmd_next_def cmd_prev_def)
  have fields: "\<forall>c s1. (c = cmd_next \<or> c = cmd_prev) \<and> handle_command e c s = Inr s1 \<longrightarrow>
         tabs s1 = tabs s
         \<and> selected_index s1
             = (if tabs s = [] then selected_index s
                else (selected_index s + (if c = cmd_prev then - 1 else 1))
                       mod int (length (tabs s)))
         \<and> last_draw s1 = clock e \<and> frames s1 = frames s + 1
         \<and> saw_tab_event s1 = saw_tab_event s
         \<and> any_key_event s1 = any_key_event s
         \<and> last_input_time s1 = last_input_time s"
  proof (intro allI impI)
    fix c s1
    assume a: "(c = cmd_next \<or> c = cmd_prev) \<and> handle_command e c s = Inr s1"
    then have h: "handle_command e c s = Inr s1" and c: "c = cmd_next \<or> c = cmd_prev" by auto
    from handle_command_sel [OF h c]
    have eq: "sel_and_flags s1
           = sel_and_flags (s\<lparr>selected_index :=
                (if tabs s = [] then selected_index s
                 else (selected_index s + (if c = cmd_prev then - 1 else 1))
                        mod int (length (tabs s))),
                last_draw := clock e, frames := frames s + 1\<rparr>)" .
    from eq show "tabs s1 = tabs s
         \<and> selected_index s1
             = (if tabs s = [] then selected_index s
                else (selected_index s + (if c = cmd_prev then - 1 else 1))
                       mod int (length (tabs s)))
         \<and> last_draw s1 = clock e \<and> frames s1 = frames s + 1
         \<and> saw_tab_event s1 = saw_tab_event s
         \<and> any_key_event s1 = any_key_event s
         \<and> last_input_time s1 = last_input_time s"
      by (simp add: sel_and_flags_def)
  qed
  have queue: "\<forall>s1 s2. schedule_preview_fetch e (key_flags e s1) = Inr s2 \<longrightarrow>
         s2 = (key_flags e s1)\<lparr>preview_queue := preview_queue s2\<rparr>"
  proof (intro allI impI)
    fix s1 s2
    assume "schedule_preview_fetch e (key_flags e s1) = Inr s2"
    from schedule_preview_fetch_queue [OF this]
    have "(s2\<lparr>preview_queue := None\<rparr>)\<lparr>preview_queue := preview_queue s2\<rparr>
          = ((key_flags e s1)\<lparr>preview_queue := None\<rparr>)\<lparr>preview_queue := preview_queue s2\<rparr>"
      by simp
    then show "s2 = (key_flags e s1)\<lparr>preview_queue := preview_queue s2\<rparr>" by simp
  qed
  have succ: "\<forall>c s1. (c = cmd_next \<or> c = cmd_prev) \<and> handle_command e c s = Inr s1 \<longrightarrow>
         (\<exists>s2. schedule_preview_fetch e (key_flags e s1) = Inr s2)"
    using schedule_after_command by blast
  have raises: "(ebind (handle_command e c s)
                   (\<lambda>s1. ebind (schedule_preview_fetch e (key_flags e s1))
                           (\<lambda>s2. Inr (Running s2))) = Inl x)
                \<longleftrightarrow> handle_command e c s = Inl x"
    if c: "c = cmd_next \<or> c = cmd_prev" for c x
  proof (cases "handle_command e c s")
    case (Inl y)
    then show ?thesis by simp
  next
    case (Inr s1)
    from schedule_after_command [OF Inr c] obtain s2 where
      "schedule_preview_fetch e (key_flags e s1) = Inr s2" by blast
    with Inr show ?thesis by simp
  qed
  have rn: "\<forall>x. handle_key e (key_event TAB_CODE 1 1) s = Inl x
            \<longleftrightarrow> handle_command e cmd_next s = Inl x"
    unfolding nxt using raises [of cmd_next] by blast
  have rp: "\<forall>x. handle_key e (key_event TAB_CODE 2 1) s = Inl x
            \<longleftrightarrow> handle_command e cmd_prev s = Inl x"
    unfolding prv using raises [of cmd_prev] by blast
  show ?thesis by (intro conjI) (rule nxt prv fields queue succ rn rp)+
qed

lemma example_schedule:
  "\<exists>s2. schedule_preview_fetch example_env (key_flags example_env example_switcher) = Inr s2"
  by (simp add: example_switcher_eq key_flags_def schedule_preview_fetch_def schedule_step_def
      neighbourhood_def py_nth_def queue_if_stale_def preview_stale_def enqueue_def Let_def
      example_tab_def)

theorem command_vs_cycle_key_witness:
  "(\<exists>s1. (cmd_next = cmd_next \<or> cmd_next = cmd_prev)
     \<and> handle_command example_env cmd_next example_switcher = Inr s1
     \<and> selected_index s1 = 2 \<and> \<not> saw_tab_event s1 \<and> frames s1 = 1)
   \<and> (\<exists>s2. schedule_preview_fetch example_env (key_flags example_env example_switcher) = Inr s2
          \<and> s2 = (key_flags example_env example_switcher)\<lparr>preview_queue := preview_queue s2\<rparr>)"
proof
  obtain s1 where s1: "handle_command example_env cmd_next example_switcher = Inr s1"
    using example_command by blast
  from command_vs_cycle_key [of example_env example_switcher] s1
  have "selected_index s1
             = (if tabs example_switcher = [] then selected_index example_switcher
                else (selected_index example_switcher + (if cmd_next = cmd_prev then - 1 else 1))
                       mod int (length (tabs example_switcher)))
         \<and> frames s1 = frames example_switcher + 1
         \<and> saw_tab_event s1 = saw_tab_event example_switcher"
    by blast
  then show "\<exists>s1. (cmd_next = cmd_next \<or> cmd_next = cmd_prev)
     \<and> handle_command example_env cmd_next example_switcher = Inr s1
     \<and> selected_index s1 = 2 \<and> \<not> saw_tab_event s1 \<and> frames s1 = 1"
    using s1 by (auto simp: example_switcher_eq cmd_next_def cmd_prev_def)
next
  obtain s2 where s2: "schedule_preview_fetch example_env (key_flags example_env example_switcher) = Inr s2"
    using example_schedule by blast
  from command_vs_cycle_key [of example_env example_switcher] s2
  have "s2 = (key_flags example_env example_switcher)\<lparr>preview_queue := preview_queue s2\<rparr>"
    by blast
  then show "\<exists>s2. schedule_preview_fetch example_env (key_flags example_env example_switcher) = Inr s2
          \<and> s2 = (key_flags example_env example_switcher)\<lparr>preview_queue := preview_queue s2\<rparr>"
    using s2 by blast
qed

section \<open>The oracle path of the tick\<close>

subsection \<open>No handler but the tick touches the oracle fields\<close>

lemma store_preview_oracle [simp]: "oracle_fields (store_preview e t s) = oracle_fields s"
  by (simp add: oracle_fields_def store_preview_def Let_def)

lemma queue_if_stale_oracle [simp]: "oracle_fields (queue_if_stale e tid s) = oracle_fields s"
  by (simp add: oracle_fields_def queue_if_stale_def enqueue_def Let_def)

lemma ensure_step_oracle: "ensure_step e idx s = Inr s' \<Longrightarrow> oracle_fields s' = oracle_fields s"
  by (cases "py_nth (tabs s) idx") (auto simp: ensure_step_def split: if_splits)

lemma draw_card_step_oracle: "draw_card_step e t s = Inr s' \<Longrightarrow> oracle_fields s' = oracle_fields s"
  by (cases "current_tab_id s") (auto simp: draw_card_step_def)

lemma schedule_step_oracle: "schedule_step e idx s = Inr s' \<Longrightarrow> oracle_fields s' = oracle_fields s"
  by (cases "py_nth (tabs s) idx") (auto simp: schedule_step_def)

lemma ensure_preview_cache_oracle:
  "ensure_preview_cache e s = Inr s' \<Longrightarrow> oracle_fields s' = oracle_fields s"
  using efold_invariant [of "ensure_step e" oracle_fields, OF ensure_step_oracle]
  by (auto simp: ensure_preview_cache_def split: if_splits)

lemma move_oracle:
  assumes "move e d s = Inr s'"
  shows "oracle_fields s' = oracle_fields s"
proof (cases "tabs s = []")
  case True
  then show ?thesis using assms by (simp add: move_def)
next
  case False
  let ?s1 = "s\<lparr>selected_index := (selected_index s + d) mod int (length (tabs s))\<rparr>"
  from assms False obtain a where a: "current_tab_id s = Inr a"
    by (cases "current_tab_id s") (simp_all add: move_def)
  from assms False a obtain b where b: "current_tab_id ?s1 = Inr b"
    by (cases "current_tab_id ?s1") (simp_all add: move_def)
  from assms False a b have "ensure_preview_cache e ?s1 = Inr s'" by (simp add: move_def)
  from ensure_preview_cache_oracle [OF this] show ?thesis by (simp add: oracle_fields_def)
qed

lemma paint_oracle:
  assumes p: "paint e s = Inr s'"
  shows "oracle_fields s' = oracle_fields s"
proof (cases "tabs s = []")
  case True
  then show ?thesis using p by (auto simp: paint_def Let_def oracle_fields_def)
next
  case False
  let ?s1 = "s\<lparr>last_draw := clock e\<rparr>"
  from p obtain s2 where s2: "efold (draw_card_step e) (tabs s) ?s1 = Inr s2"
    "s' = s2\<lparr>frames := frames s2 + 1\<rparr>"
    using False by (cases "efold (draw_card_step e) (tabs s) ?s1") (auto simp: paint_def Let_def)
  from efold_invariant [of "draw_card_step e" oracle_fields, OF draw_card_step_oracle s2(1)]
  show ?thesis using s2(2) by (simp add: oracle_fields_def)
qed

lemma draw_oracle: "draw e force s = Inr s' \<Longrightarrow> oracle_fields s' = oracle_fields s"
  by (auto simp: draw_def dest: paint_oracle split: if_splits)

lemma schedule_preview_fetch_oracle:
  assumes "schedule_preview_fetch e s = Inr s'"
  shows "oracle_fields s' = oracle_fields s"
proof -
  from schedule_preview_fetch_queue [OF assms]
  have "oracle_fields (s'\<lparr>preview_queue := None\<rparr>) = oracle_fields (s\<lparr>preview_queue := None\<rparr>)"
    by simp
  then show ?thesis by (simp add: oracle_fields_def)
qed

lemma handle_command_oracle:
  assumes "handle_command e c s = Inr s'"
  shows "oracle_fields s' = oracle_fields s"
proof (cases "c = cmd_next \<or> c = cmd_prev")
  case False
  then show ?thesis using assms by (simp add: handle_command_def)
next
  case True
  with assms obtain s1 where s1: "move e (if c = cmd_prev then - 1 else 1) s = Inr s1"
    "draw e True s1 = Inr s'"
    by (cases "move e (if c = cmd_prev then - 1 else 1) s") (auto simp: handle_command_def)
  from move_oracle [OF s1(1)] draw_oracle [OF s1(2)] show ?thesis by simp
qed

lemma drain_preview_queue_oracle:
  "oracle_fields (snd (drain_preview_queue e s)) = oracle_fields s"
  by (auto simp: drain_preview_queue_def Let_def oracle_fields_def store_preview_def
      split: option.splits list.splits)

lemma exit_commit_result:
  "exit_commit e r s = Inr out \<Longrightarrow> exit_reason_of out = Some r"
  by (cases "commit e s") (auto simp: exit_commit_def)

lemma timeout_guards_result:
  assumes "timeout_guards e s = Inr out"
  shows "out = Running s \<or> (exit_reason_of out \<noteq> None \<and> exit_reason_of out \<noteq> Some CtrlPollCommit)"
  using assms
  by (auto simp: timeout_guards_def Let_def split: if_splits dest: exit_commit_result)

lemma cycle_selection_oracle:
  assumes "cycle_selection e d s = Inr out"
  shows "\<exists>s'. out = Running s' \<and> oracle_fields s' = oracle_fields s"
proof -
  from assms obtain s5 where s5: "move e d s = Inr s5"
    by (cases "move e d s") (simp_all add: cycle_selection_def)
  with assms obtain s6 where s6: "draw e True s5 = Inr s6"
    by (cases "draw e True s5") (simp_all add: cycle_selection_def)
  with assms s5 obtain s7 where s7: "schedule_preview_fetch e s6 = Inr s7"
    by (cases "schedule_preview_fetch e s6") (simp_all add: cycle_selection_def)
  from assms s5 s6 s7 have "out = Running s7" by (simp add: cycle_selection_def)
  moreover have "oracle_fields s7 = oracle_fields s"
    using move_oracle [OF s5] draw_oracle [OF s6] schedule_preview_fetch_oracle [OF s7] by simp
  ultimately show ?thesis by blast
qed

lemma ctrl_key_update_oracle [simp]: "oracle_fields (ctrl_key_update ev s) = oracle_fields s"
  by (simp add: ctrl_key_update_def oracle_fields_def Let_def)

lemma handle_key_result:
  assumes h: "handle_key e ev s = Inr out"
  shows "(\<exists>s'. out = Running s' \<and> oracle_fields s' = oracle_fields s)
         \<or> (exit_reason_of out \<noteq> None \<and> exit_reason_of out \<noteq> Some CtrlPollCommit)"
proof -
  let ?s = "s\<lparr>any_key_event := True, last_input_time := clock e\<rparr>"
  let ?s2 = "ctrl_key_update ev ?s"
  have f0: "oracle_fields ?s = oracle_fields s" by (simp add: oracle_fields_def)
  have f2: "oracle_fields ?s2 = oracle_fields s" by (simp add: f0)
  consider (marker_press) "key_code ev = MARKER_KEY_CODE \<and> event_type ev = 1"
    | (marker_release) "\<not> (key_code ev = MARKER_KEY_CODE \<and> event_type ev = 1)"
        "key_code ev = MARKER_KEY_CODE \<and> event_type ev = 3"
    | (other) "\<not> (key_code ev = MARKER_KEY_CODE \<and> event_type ev = 1)"
        "\<not> (key_code ev = MARKER_KEY_CODE \<and> event_type ev = 3)"
    by blast
  then show ?thesis
  proof cases
    case marker_press
    then have "out = Running (?s\<lparr>marker_seen := True, ctrl_down := True, ctrl_seen := True\<rparr>)"
      using h by (simp add: handle_key_def Let_def)
    then show ?thesis by (simp add: oracle_fields_def)
  next
    case marker_release
    then have "out = Running (?s\<lparr>ctrl_down := False\<rparr>)"
      using h by (simp add: handle_key_def Let_def)
    then show ?thesis by (simp add: oracle_fields_def)
  next
    case other
    let ?rel = "key_code ev \<in> CTRL_KEY_CODES \<and> event_type ev = 3
                 \<and> should_commit_on_ctrl_release e ?s2"
    let ?esc = "key_code ev = ESC_CODE \<and> event_type ev = 1"
    let ?tab = "key_code ev = TAB_CODE \<and> (event_type ev = 1 \<or> event_type ev = 2)"
    let ?leg = "key_code ev = - TAB_CODE"
    let ?q = "key_code ev = 113 \<and> event_type ev = 1"
    let ?s4 = "if ctrl ev then ?s2\<lparr>saw_tab_event := True, ctrl_down := True\<rparr>
               else ?s2\<lparr>saw_tab_event := True\<rparr>"
    have hk: "handle_key e ev s =
        (if ?rel then exit_commit e CtrlReleaseCommit ?s2
         else if ?esc then Inr (Exited EscapeCancel ?s2)
         else if ?tab then cycle_selection e (if shift ev then - 1 else 1) ?s4
         else if ?leg then cycle_selection e (- 1) (?s2\<lparr>saw_tab_event := True\<rparr>)
         else if ?q then Inr (Exited QuitQ ?s2)
         else Inr (Running ?s2))"
      by (simp only: handle_key_def Let_def if_not_P [OF other(1)] if_not_P [OF other(2)])
    have f4: "oracle_fields ?s4 = oracle_fields s"
      using f2 by (simp add: oracle_fields_def)
    have f3: "oracle_fields (?s2\<lparr>saw_tab_event := True\<rparr>) = oracle_fields s"
      using f2 by (simp add: oracle_fields_def)
    show ?thesis
    proof (cases ?rel)
      case True
      have "exit_commit e CtrlReleaseCommit ?s2 = Inr out"
        using h [unfolded hk if_P [OF True]] by simp
      from exit_commit_result [OF this] show ?thesis by simp
    next
      case nrel: False
      show ?thesis
      proof (cases ?esc)
        case True
        have "Inr (Exited EscapeCancel ?s2) = Inr out"
          using h [unfolded hk if_not_P [OF nrel] if_P [OF True]] by simp
        then have "out = Exited EscapeCancel ?s2" by simp
        then show ?thesis by simp
      next
        case nesc: False
        show ?thesis
        proof (cases ?tab)
          case True
          have "cycle_selection e (if shift ev then - 1 else 1) ?s4 = Inr out"
            using h [unfolded hk if_not_P [OF nrel] if_not_P [OF nesc] if_P [OF True]] by simp
          from cycle_selection_oracle [OF this] f4 show ?thesis by auto
        next
          case ntab: False
          show ?thesis
          proof (cases ?leg)
            case True
            have "cycle_selection e (- 1) (?s2\<lparr>saw_tab_event := True\<rparr>) = Inr out"
              using h [unfolded hk if_not_P [OF nrel] if_not_P [OF nesc] if_not_P [OF ntab] if_P [OF True]] by simp
            from cycle_selection_oracle [OF this] f3 show ?thesis by auto
          next
            case nleg: False
            show ?thesis
            proof (cases ?q)
              case True
              have "Inr (Exited QuitQ ?s2) = Inr out"
                using h [unfolded hk if_not_P [OF nrel] if_not_P [OF nesc] if_not_P [OF ntab] if_not_P [OF nleg] if_P [OF True]] by simp
              then have "out = Exited QuitQ ?s2" by simp
              then show ?thesis by simp
            next
              case nq: False
              have "Inr (Running ?s2) = Inr out"
                using h [unfolded hk if_not_P [OF nrel] if_not_P [OF nesc] if_not_P [OF ntab] if_not_P [OF nleg] if_not_P [OF nq]] by simp
              then have "out = Running ?s2" by simp
              then show ?thesis using f2 by simp
            qed
          qed
        qed
      qed
    qed
  qed
qed


lemma oracle_poll_unavailable:
  assumes "\<not> (mod_query_present s \<and> ctrl_mask s \<noteq> None \<and> poll \<noteq> None)"
  shows "oracle_poll e poll s = timeout_guards e s"
  using assms by (auto simp: oracle_poll_def split: option.splits bool.splits)

lemma oracle_poll_held:
  assumes "mod_query_present s" "ctrl_mask s = Some cm" "ctrl_is_down m cm"
  shows "oracle_poll e (Some m) s
         = timeout_guards e (s\<lparr>poll_ctrl_seen := True, ctrl_down := True, ctrl_up_streak := 0\<rparr>)"
  using assms by (simp add: oracle_poll_def)

lemma oracle_poll_not_held:
  assumes "mod_query_present s" "ctrl_mask s = Some cm" "\<not> ctrl_is_down m cm"
  shows "oracle_poll e (Some m) s
         = (if poll_ctrl_seen s \<and> ctrl_up_streak s + 1 \<ge> 2
            then exit_commit e CtrlPollCommit (s\<lparr>ctrl_up_streak := ctrl_up_streak s + 1\<rparr>)
            else timeout_guards e (s\<lparr>ctrl_up_streak := ctrl_up_streak s + 1\<rparr>))"
  using assms by (simp add: oracle_poll_def Let_def)

lemma oracle_poll_result:
  assumes r: "oracle_poll e poll s = Inr out"
    and inv: "poll_inv (oracle_fields s) hist"
  shows "(\<exists>s'. out = Running s' \<and> mod_query_present s' = mod_query_present s
              \<and> ctrl_mask s' = ctrl_mask s
              \<and> poll_inv (oracle_fields s') (hist @ report_of (Idle poll)))
         \<or> (exit_reason_of out \<noteq> None \<and> exit_reason_of out \<noteq> Some CtrlPollCommit)
         \<or> (exit_reason_of out = Some CtrlPollCommit \<and> release_seen s poll hist)"
proof (cases "mod_query_present s \<and> ctrl_mask s \<noteq> None \<and> poll \<noteq> None")
  case False
  from r have tg: "timeout_guards e s = Inr out" by (simp add: oracle_poll_unavailable [OF False])
  have "poll_inv (oracle_fields s) (hist @ report_of (Idle poll))"
  proof (cases poll)
    case None
    then show ?thesis using inv by simp
  next
    case (Some m)
    with False have "\<not> mod_query_present s \<or> ctrl_mask s = None" by simp
    then have "\<not> poll_ctrl_seen s" using inv by (auto simp: poll_inv_def oracle_fields_def)
    then show ?thesis by (simp add: poll_inv_def oracle_fields_def)
  qed
  with timeout_guards_result [OF tg] show ?thesis by auto
next
  case True
  then obtain cm m where av: "mod_query_present s" "ctrl_mask s = Some cm" "poll = Some m"
    by auto
  show ?thesis
  proof (cases "ctrl_is_down m cm")
    case True
    let ?s1 = "s\<lparr>poll_ctrl_seen := True, ctrl_down := True, ctrl_up_streak := 0\<rparr>"
    from r have tg: "timeout_guards e ?s1 = Inr out"
      by (simp add: av oracle_poll_held [OF av(1,2) True])
    have "poll_inv (oracle_fields ?s1) (hist @ [m])"
      using av True by (simp add: poll_inv_def oracle_fields_def)
    with timeout_guards_result [OF tg] show ?thesis using av by auto
  next
    case nh: False
    let ?s1 = "s\<lparr>ctrl_up_streak := ctrl_up_streak s + 1\<rparr>"
    show ?thesis
    proof (cases "poll_ctrl_seen s \<and> ctrl_up_streak s + 1 \<ge> 2")
      case True
      have "exit_commit e CtrlPollCommit ?s1 = Inr out"
        using r [unfolded av(3) oracle_poll_not_held [OF av(1,2) nh] if_P [OF True]] by simp
      from exit_commit_result [OF this] have ex: "exit_reason_of out = Some CtrlPollCommit" .
      from True inv av obtain pre h a where "hist = pre @ [h, a]" "ctrl_is_down h cm"
        "\<not> ctrl_is_down a cm"
        by (auto simp: poll_inv_def oracle_fields_def)
      then have "release_seen s poll hist"
        using av nh by (auto simp: release_seen_def)
      with ex show ?thesis by simp
    next
      case False
      have tg: "timeout_guards e ?s1 = Inr out"
        using r [unfolded av(3) oracle_poll_not_held [OF av(1,2) nh] if_not_P [OF False]] by simp
      have "poll_inv (oracle_fields ?s1) (hist @ [m])"
      proof (cases "poll_ctrl_seen s")
        case False
        then show ?thesis by (simp add: poll_inv_def oracle_fields_def)
      next
        case True
        with \<open>\<not> (poll_ctrl_seen s \<and> ctrl_up_streak s + 1 \<ge> 2)\<close>
        have lt: "ctrl_up_streak s < 1" by simp
        from True inv av lt obtain pre h where "hist = pre @ [h]" "ctrl_is_down h cm"
          "ctrl_up_streak s = 0"
          by (auto simp: poll_inv_def oracle_fields_def)
        then show ?thesis using True av nh by (simp add: poll_inv_def oracle_fields_def)
      qed
      with timeout_guards_result [OF tg] show ?thesis using av by auto
    qed
  qed
qed

lemma release_seen_fields:
  "oracle_fields s1 = oracle_fields s \<Longrightarrow> release_seen s1 poll hist = release_seen s poll hist"
  by (simp add: release_seen_def oracle_fields_def)

lemma tick_result:
  assumes r: "tick e poll s = Inr out"
    and inv: "poll_inv (oracle_fields s) hist"
  shows "(\<exists>s'. out = Running s' \<and> mod_query_present s' = mod_query_present s
              \<and> ctrl_mask s' = ctrl_mask s
              \<and> poll_inv (oracle_fields s') (hist @ report_of (Idle poll)))
         \<or> (exit_reason_of out \<noteq> None \<and> exit_reason_of out \<noteq> Some CtrlPollCommit)
         \<or> (exit_reason_of out = Some CtrlPollCommit \<and> release_seen s poll hist)"
proof -
  obtain drained s1 where d: "drain_preview_queue e s = (drained, s1)"
    by (cases "drain_preview_queue e s")
  have f1: "oracle_fields s1 = oracle_fields s"
    using drain_preview_queue_oracle [of e s] d by simp
  from r d obtain s2 where s2: "(if drained then draw e False s1 else Inr s1) = Inr s2"
    "oracle_poll e poll s2 = Inr out"
    by (cases "if drained then draw e False s1 else Inr s1") (simp_all add: tick_def)
  have f2: "oracle_fields s2 = oracle_fields s"
    using s2(1) f1 by (auto split: if_splits dest: draw_oracle)
  have inv2: "poll_inv (oracle_fields s2) hist" using inv f2 by simp
  have mq: "mod_query_present s2 = mod_query_present s" "ctrl_mask s2 = ctrl_mask s"
    using f2 by (simp_all add: oracle_fields_def)
  from oracle_poll_result [OF s2(2) inv2] release_seen_fields [OF f2] mq
  show ?thesis by auto
qed

lemma round_result:
  assumes r: "round e inp s = Inr out"
    and inv: "poll_inv (oracle_fields s) hist"
  shows "(\<exists>s'. out = Running s' \<and> mod_query_present s' = mod_query_present s
              \<and> ctrl_mask s' = ctrl_mask s
              \<and> poll_inv (oracle_fields s') (hist @ report_of inp))
         \<or> (exit_reason_of out \<noteq> None \<and> exit_reason_of out \<noteq> Some CtrlPollCommit)
         \<or> (exit_reason_of out = Some CtrlPollCommit
             \<and> (\<exists>poll. inp = Idle poll \<and> release_seen s poll hist))"
proof (cases inp)
  case (Idle poll)
  with r have "tick e poll s = Inr out" by (simp add: round_def)
  from tick_result [OF this inv] show ?thesis using Idle by auto
next
  case (Ready c k)
  from r Ready obtain s1 where s1: "(case c of None \<Rightarrow> Inr s | Some x \<Rightarrow> handle_command e x s) = Inr s1"
    "(case k of None \<Rightarrow> Inr (Running s1) | Some ev \<Rightarrow> handle_key e ev s1) = Inr out"
    by (cases "case c of None \<Rightarrow> Inr s | Some x \<Rightarrow> handle_command e x s") (simp_all add: round_def)
  have f1: "oracle_fields s1 = oracle_fields s"
    using s1(1) by (auto split: option.splits dest: handle_command_oracle)
  show ?thesis
  proof (cases k)
    case None
    with s1(2) have "out = Running s1" by simp
    then show ?thesis using f1 inv Ready by (simp add: oracle_fields_def)
  next
    case (Some ev)
    with s1(2) have "handle_key e ev s1 = Inr out" by simp
    from handle_key_result [OF this] show ?thesis using f1 inv Ready
      by (auto simp: oracle_fields_def)
  qed
qed

lemma oracle_reports_Cons: "oracle_reports ((e, inp) # rs) = report_of inp @ oracle_reports rs"
  by (simp add: oracle_reports_def)

lemma run_rounds_commit:
  assumes "run_rounds rs s = Inr (Exited CtrlPollCommit s')"
    and "poll_inv (oracle_fields s) hist"
  shows "\<exists>n e pre h a b cm. n < length rs \<and> rs ! n = (e, Idle (Some b))
           \<and> mod_query_present s \<and> ctrl_mask s = Some cm
           \<and> hist @ oracle_reports (take (Suc n) rs) = pre @ [h, a, b]
           \<and> ctrl_is_down h cm \<and> \<not> ctrl_is_down a cm \<and> \<not> ctrl_is_down b cm"
  using assms
proof (induction rs arbitrary: s hist)
  case Nil
  then show ?case by simp
next
  case (Cons r rs)
  obtain e inp where r: "r = (e, inp)" by (cases r)
  from Cons.prems(1) r obtain out where out: "round e inp s = Inr out"
    by (cases "round e inp s") simp_all
  from round_result [OF out Cons.prems(2)]
  consider (run) s1 where "out = Running s1" "mod_query_present s1 = mod_query_present s"
      "ctrl_mask s1 = ctrl_mask s" "poll_inv (oracle_fields s1) (hist @ report_of inp)"
    | (other) "exit_reason_of out \<noteq> None" "exit_reason_of out \<noteq> Some CtrlPollCommit"
    | (commit) poll where "exit_reason_of out = Some CtrlPollCommit" "inp = Idle poll"
        "release_seen s poll hist"
    by blast
  then show ?case
  proof cases
    case run
    with Cons.prems(1) r out have rest: "run_rounds rs s1 = Inr (Exited CtrlPollCommit s')"
      by simp
    from Cons.IH [OF rest run(4)]
    obtain n e' pre h a b cm where n: "n < length rs" "rs ! n = (e', Idle (Some b))"
      "mod_query_present s1" "ctrl_mask s1 = Some cm"
      "(hist @ report_of inp) @ oracle_reports (take (Suc n) rs) = pre @ [h, a, b]"
      "ctrl_is_down h cm" "\<not> ctrl_is_down a cm" "\<not> ctrl_is_down b cm"
      by blast
    have "Suc n < length (r # rs)" using n(1) by simp
    moreover have "(r # rs) ! Suc n = (e', Idle (Some b))" using n(2) by simp
    moreover have "mod_query_present s" "ctrl_mask s = Some cm" using n(3,4) run(2,3) by simp_all
    moreover have "hist @ oracle_reports (take (Suc (Suc n)) (r # rs)) = pre @ [h, a, b]"
      using n(5) r by (simp add: oracle_reports_Cons)
    ultimately show ?thesis using n(6,7,8) by blast
  next
    case other
    with Cons.prems(1) r out show ?thesis by (cases out) auto
  next
    case commit
    from commit(3) obtain cm pre h a b where c: "mod_query_present s" "ctrl_mask s = Some cm"
      "poll = Some b" "hist @ [b] = pre @ [h, a, b]"
      "ctrl_is_down h cm" "\<not> ctrl_is_down a cm" "\<not> ctrl_is_down b cm"
      by (auto simp: release_seen_def)
    have "0 < length (r # rs)" by simp
    moreover have "(r # rs) ! 0 = (e, Idle (Some b))" using r commit(2) c(3) by simp
    moreover have "hist @ oracle_reports (take (Suc 0) (r # rs)) = pre @ [h, a, b]"
      using r commit(2) c(3,4) by (simp add: oracle_reports_Cons oracle_reports_def)
    ultimately show ?thesis using c(1,2,5,6,7) by blast
  qed
qed


lemma map_sum_Inr_D: "map_sum f g x = Inr b \<Longrightarrow> \<exists>y. x = Inr y \<and> g y = b"
  by (cases x) auto

lemma example_run_reason:
  "map_sum id exit_reason_of (ebind example_oracle_switcher (run_rounds example_ticks))
   = Inr (Some CtrlPollCommit)"
  by code_simp

lemma example_start_unseen:
  "map_sum id poll_ctrl_seen example_oracle_switcher = Inr False"
  by code_simp

lemma example_polls_row: "\<not> two_in_a_row (not_held_report 4) example_polls"
  by code_simp


text \<open>
  C3, as stated, fails: in the example run the oracle path commits at the fourth tick
  although no two ticks in a row reported the modifier as not held; the third tick,
  between the two that did, got no answer from the oracle.
\<close>

theorem oracle_commit_counterexample:
  "map_sum id exit_reason_of (ebind example_oracle_switcher (run_rounds example_ticks))
     = Inr (Some CtrlPollCommit)
   \<and> map snd example_ticks = map Idle example_polls
   \<and> \<not> two_in_a_row (not_held_report 4) example_polls"
proof (intro conjI)
  show "map_sum id exit_reason_of (ebind example_oracle_switcher (run_rounds example_ticks))
     = Inr (Some CtrlPollCommit)"
    by (rule example_run_reason)
  show "map snd example_ticks = map Idle example_polls"
    by (simp add: example_ticks_def example_polls_def)
  show "\<not> two_in_a_row (not_held_report 4) example_polls"
    by (rule example_polls_row)
qed

text \<open>
  C3 (amended). In a run that starts with \<open>poll_ctrl_seen\<close> false, as \<open>__init__\<close> leaves
  it, the oracle path commits only in a tick in which the oracle answers not held, and
  only if the definite answers of the oracle up to that tick end with: held, not held,
  not held. Ticks in which the oracle is not asked or answers unknown are skipped: they
  neither count nor reset the streak, so the two not-held answers need not come from
  consecutive ticks. A tick in a state where no held answer has been seen never commits
  through this path. The oracle path is evaluated before the time-out guards: in a state
  where a held answer has been seen and the streak is at least 1, a not-held answer
  commits whatever the clock says.
\<close>

theorem oracle_commit_after_held_then_released:
  "(\<not> poll_ctrl_seen s0 \<and> run_rounds rs s0 = Inr (Exited CtrlPollCommit s') \<longrightarrow>
      (\<exists>n e pre h a b cm. n < length rs \<and> rs ! n = (e, Idle (Some b))
         \<and> mod_query_present s0 \<and> ctrl_mask s0 = Some cm
         \<and> oracle_reports (take (Suc n) rs) = pre @ [h, a, b]
         \<and> ctrl_is_down h cm \<and> \<not> ctrl_is_down a cm \<and> \<not> ctrl_is_down b cm))
   \<and> (\<not> poll_ctrl_seen s \<and> tick e1 poll s = Inr out \<longrightarrow>
         exit_reason_of out \<noteq> Some CtrlPollCommit)
   \<and> (mod_query_present s \<and> ctrl_mask s = Some cm' \<and> \<not> ctrl_is_down m cm'
        \<and> poll_ctrl_seen s \<and> 1 \<le> ctrl_up_streak s \<longrightarrow>
         oracle_poll e2 (Some m) s
           = exit_commit e2 CtrlPollCommit (s\<lparr>ctrl_up_streak := ctrl_up_streak s + 1\<rparr>))"
proof (intro conjI impI)
  assume a: "\<not> poll_ctrl_seen s0 \<and> run_rounds rs s0 = Inr (Exited CtrlPollCommit s')"
  then have inv: "poll_inv (oracle_fields s0) []"
    by (simp add: poll_inv_def oracle_fields_def)
  from a have run: "run_rounds rs s0 = Inr (Exited CtrlPollCommit s')" by simp
  from run_rounds_commit [OF run inv]
  show "\<exists>n e pre h a b cm. n < length rs \<and> rs ! n = (e, Idle (Some b))
         \<and> mod_query_present s0 \<and> ctrl_mask s0 = Some cm
         \<and> oracle_reports (take (Suc n) rs) = pre @ [h, a, b]
         \<and> ctrl_is_down h cm \<and> \<not> ctrl_is_down a cm \<and> \<not> ctrl_is_down b cm"
    by simp
next
  assume a: "\<not> poll_ctrl_seen s \<and> tick e1 poll s = Inr out"
  then have inv: "poll_inv (oracle_fields s) []"
    by (simp add: poll_inv_def oracle_fields_def)
  from a have t: "tick e1 poll s = Inr out" by simp
  have "\<not> release_seen s poll []" by (auto simp: release_seen_def)
  with tick_result [OF t inv] show "exit_reason_of out \<noteq> Some CtrlPollCommit" by auto
next
  assume a: "mod_query_present s \<and> ctrl_mask s = Some cm' \<and> \<not> ctrl_is_down m cm'
        \<and> poll_ctrl_seen s \<and> 1 \<le> ctrl_up_streak s"
  then have av: "mod_query_present s" "ctrl_mask s = Some cm'" "\<not> ctrl_is_down m cm'" by simp_all
  from a show "oracle_poll e2 (Some m) s
           = exit_commit e2 CtrlPollCommit (s\<lparr>ctrl_up_streak := ctrl_up_streak s + 1\<rparr>)"
    by (simp add: oracle_poll_not_held [OF av])
qed

theorem oracle_commit_after_held_then_released_witness:
  "\<exists>s0 s'. example_oracle_switcher = Inr s0 \<and> \<not> poll_ctrl_seen s0
     \<and> run_rounds example_ticks s0 = Inr (Exited CtrlPollCommit s')
     \<and> (\<exists>n e pre h a b cm. n < length example_ticks \<and> example_ticks ! n = (e, Idle (Some b))
           \<and> mod_query_present s0 \<and> ctrl_mask s0 = Some cm
           \<and> oracle_reports (take (Suc n) example_ticks) = pre @ [h, a, b]
           \<and> ctrl_is_down h cm \<and> \<not> ctrl_is_down a cm \<and> \<not> ctrl_is_down b cm)"
proof -
  from map_sum_Inr_D [OF example_start_unseen]
  obtain s0 where s0: "example_oracle_switcher = Inr s0" "\<not> poll_ctrl_seen s0"
    by auto
  from map_sum_Inr_D [OF example_run_reason [unfolded s0(1)]]
  obtain out where out: "run_rounds example_ticks s0 = Inr out"
    "exit_reason_of out = Some CtrlPollCommit"
    by auto
  then obtain s' where s': "run_rounds example_ticks s0 = Inr (Exited CtrlPollCommit s')"
    by (cases out) auto
  from oracle_commit_after_held_then_released [of s0 example_ticks s'] s0(2) s'
  have "\<exists>n e pre h a b cm. n < length example_ticks \<and> example_ticks ! n = (e, Idle (Some b))
           \<and> mod_query_present s0 \<and> ctrl_mask s0 = Some cm
           \<and> oracle_reports (take (Suc n) example_ticks) = pre @ [h, a, b]
           \<and> ctrl_is_down h cm \<and> \<not> ctrl_is_down a cm \<and> \<not> ctrl_is_down b cm"
    by blast
  with s0 s' show ?thesis by blast
qed

section \<open>The key decoder\<close>

subsection \<open>Decimal fields\<close>

lemma digits_of_digit: "c \<in> set (digits_of n) \<Longrightarrow> 48 \<le> c \<and> c \<le> 57"
proof (induction n arbitrary: c rule: digits_of.induct)
  case (1 n)
  show ?case
  proof (cases "n < 10")
    case True
    with "1.prems" show ?thesis by (simp add: digits_of.simps [of n])
  next
    case False
    with "1.prems" have "c \<in> set (digits_of (n div 10)) \<or> c = 48 + n mod 10"
      by (auto simp: digits_of.simps [of n])
    then show ?thesis
    proof
      assume "c \<in> set (digits_of (n div 10))"
      from "1.IH" [OF False this] show ?thesis .
    next
      assume "c = 48 + n mod 10"
      then show ?thesis by simp
    qed
  qed
qed

lemma digits_of_nonempty: "digits_of n \<noteq> []"
  by (simp add: digits_of.simps [of n])

lemma digits_of_value:
  "foldl (\<lambda>a c. a * 10 + (c - 48)) acc (digits_of n) = acc * 10 ^ length (digits_of n) + n"
proof (induction n arbitrary: acc rule: digits_of.induct)
  case (1 n)
  show ?case
  proof (cases "n < 10")
    case True
    then show ?thesis by (simp add: digits_of.simps [of n])
  next
    case False
    from "1.IH" [OF False, of acc]
    show ?thesis using False by (simp add: digits_of.simps [of n] algebra_simps)
  qed
qed

lemma int_body_digits:
  "ds \<noteq> [] \<Longrightarrow> \<forall>c\<in>set ds. 48 \<le> c \<and> c \<le> 57 \<Longrightarrow>
   int_body u acc b ds = Some (foldl (\<lambda>a c. a * 10 + (c - 48)) acc ds)"
proof (induction ds arbitrary: acc b)
  case Nil
  then show ?case by simp
next
  case (Cons c ds)
  then have c: "48 \<le> c" "c \<le> 57" by simp_all
  then have dec: "decimal_of u c = Some (c - 48)" "c \<noteq> 95" by (simp_all add: decimal_of_def)
  show ?case
  proof (cases "ds = []")
    case True
    then show ?thesis using dec by simp
  next
    case False
    with Cons have "int_body u (acc * 10 + (c - 48)) True ds
        = Some (foldl (\<lambda>a c. a * 10 + (c - 48)) (acc * 10 + (c - 48)) ds)"
      by simp
    then show ?thesis using dec by simp
  qed
qed

lemma dropWhile_hd: "xs \<noteq> [] \<Longrightarrow> \<not> P (hd xs) \<Longrightarrow> dropWhile P xs = xs"
  by (cases xs) simp_all

lemma py_int_digits:
  assumes ne: "ds \<noteq> []" and dig: "\<forall>c\<in>set ds. 48 \<le> c \<and> c \<le> 57"
  shows "py_int u ds = Inr (int (foldl (\<lambda>a c. a * 10 + (c - 48)) 0 ds))"
proof -
  from ne dig have h: "48 \<le> hd ds \<and> hd ds \<le> 57" by (cases ds) simp_all
  from ne dig have l: "48 \<le> last ds \<and> last ds \<le> 57" by simp
  have d1: "dropWhile (int_space u) ds = ds"
    using h by (intro dropWhile_hd [OF ne]) (simp add: int_space_def)
  have d2: "dropWhile (int_space u) (rev ds) = rev ds"
    using l ne by (intro dropWhile_hd) (simp_all add: int_space_def hd_rev)
  obtain c r where cr: "ds = c # r" using ne by (cases ds) auto
  with h have c: "c \<noteq> 43" "c \<noteq> 45" by auto
  have s2: "(case ds of [] \<Rightarrow> (1::int, [])
             | c # r \<Rightarrow> if c = 43 then (1, r) else if c = 45 then (- 1, r) else (1, ds))
            = (1, ds)"
    using c by (simp add: cr)
  show ?thesis
    by (simp only: py_int_def d1 Let_def s2 prod.case d2 rev_rev_ident
        int_body_digits [OF ne dig] option.case) simp
qed

lemma py_int_digits_of: "py_int u (digits_of n) = Inr (int n)"
  using py_int_digits [OF digits_of_nonempty, of n u] digits_of_digit [of _ n]
  by (simp add: digits_of_value)


lemma digits_of_length_lower: "10 ^ k \<le> n \<Longrightarrow> k < length (digits_of n)"
proof (induction k arbitrary: n)
  case 0
  then show ?case using digits_of_nonempty [of n] by (cases "digits_of n") simp_all
next
  case (Suc k)
  then have "10 \<le> n" by (metis le_trans one_le_numeral one_le_power power_Suc mult.right_neutral mult_le_mono2)
  then have d: "digits_of n = digits_of (n div 10) @ [48 + n mod 10]"
    by (simp add: digits_of.simps [of n])
  from Suc.prems have "10 ^ k \<le> n div 10" by (simp add: less_eq_div_iff_mult_less_eq)
  from Suc.IH [OF this] show ?case by (simp add: d)
qed

lemma digits_of_length_upper: "n < 10 ^ Suc k \<Longrightarrow> length (digits_of n) \<le> Suc k"
proof (induction k arbitrary: n)
  case 0
  then show ?case by (simp add: digits_of.simps [of n])
next
  case (Suc k)
  show ?case
  proof (cases "n < 10")
    case True
    then show ?thesis by (simp add: digits_of.simps [of n])
  next
    case False
    from Suc.prems have "n div 10 < 10 ^ Suc k" by (simp add: div_less_iff_less_mult)
    from Suc.IH [OF this] show ?thesis using False by (simp add: digits_of.simps [of n])
  qed
qed

lemma py_split_none: "sep \<notin> set xs \<Longrightarrow> py_split sep xs = [xs]"
  by (induction xs) auto

lemma py_split_first:
  "sep \<notin> set xs \<Longrightarrow> py_split sep (xs @ sep # ys) = xs # py_split sep ys"
  by (induction xs) auto

lemma read_csi_final:
  assumes "\<forall>c\<in>set p. (of_char c :: nat) < 0x40"
    and "0x40 \<le> (of_char f :: nat)" "(of_char f :: nat) \<le> 0x7e"
    and "length buf + length p \<le> 64"
  shows "read_csi buf (p @ f # rest) = buf @ p @ [f]"
  using assms
proof (induction p arbitrary: buf)
  case Nil
  then show ?case by simp
next
  case (Cons c p)
  then have "(of_char c :: nat) < 0x40" "length (buf @ [c]) \<le> 64"
    "length (buf @ [c]) + length p \<le> 64" by simp_all
  with Cons.IH [of "buf @ [c]"] Cons.prems show ?case by (simp add: Let_def)
qed

lemma read_csi_cap:
  assumes "\<forall>c\<in>set p. (of_char c :: nat) < 0x40"
    and "length buf \<le> 64" "65 \<le> length buf + length p"
  shows "read_csi buf (p @ rest) = buf @ take (65 - length buf) p"
  using assms
proof (induction p arbitrary: buf)
  case Nil
  then show ?case by simp
next
  case (Cons c p)
  then have nf: "(of_char c :: nat) < 0x40" by simp
  show ?case
  proof (cases "length buf = 64")
    case True
    then show ?thesis using nf by (simp add: Let_def)
  next
    case False
    with Cons.prems have l: "length (buf @ [c]) \<le> 64" "65 \<le> length (buf @ [c]) + length p"
      by simp_all
    from Cons.prems have "\<forall>c\<in>set p. (of_char c :: nat) < 0x40" by simp
    from Cons.IH [OF this l] have "read_csi (buf @ [c]) (p @ rest)
        = (buf @ [c]) @ take (65 - length (buf @ [c])) p" .
    moreover have "65 - length buf = Suc (65 - length (buf @ [c]))" using l by simp
    ultimately show ?thesis using nf l by (simp add: Let_def)
  qed
qed

lemma payload_chars: "c \<in> set (key_report_payload k alt me) \<Longrightarrow> 48 \<le> c \<and> c \<le> 59"
  by (auto simp: key_report_payload_def split: option.splits dest: digits_of_digit)

lemma of_char_char_of_small: "c < 256 \<Longrightarrow> (of_char (char_of c) :: nat) = c"
  by simp

lemma payload_bytes_nonfinal:
  "\<forall>b\<in>set (map char_of (key_report_payload k alt me)). (of_char b :: nat) < 0x40"
proof
  fix b assume "b \<in> set (map char_of (key_report_payload k alt me))"
  then obtain c where c: "c \<in> set (key_report_payload k alt me)" "b = char_of c" by auto
  from payload_chars [OF c(1)] have "c < 256" "c < 0x40" by simp_all
  then show "(of_char b :: nat) < 0x40" using c(2) by simp
qed

lemma decode_payload:
  "decode_ascii_ignore (map char_of (key_report_payload k alt me)) = key_report_payload k alt me"
proof -
  have "\<And>c. c \<in> set (key_report_payload k alt me) \<Longrightarrow> c < 128 \<and> (of_char (char_of c :: char) :: nat) = c"
    using payload_chars by fastforce
  then show ?thesis
    by (simp add: decode_ascii_ignore_def filter_map o_def) (simp add: map_idI filter_id_conv)
qed


lemma takeWhile_sep: "sep \<notin> set xs \<Longrightarrow> takeWhile (\<lambda>c. c \<noteq> sep) (xs @ sep # ys) = xs"
  by (induction xs) auto

lemma dropWhile_sep: "sep \<notin> set xs \<Longrightarrow> dropWhile (\<lambda>c. c \<noteq> sep) (xs @ sep # ys) = sep # ys"
  by (induction xs) auto

lemma digits_no_sep: "58 \<notin> set (digits_of n)" "59 \<notin> set (digits_of n)"
  using digits_of_digit [of 58 n] digits_of_digit [of 59 n] by auto

lemma key_field_head:
  "hd (py_split 58 (digits_of k @ (case alt of None \<Rightarrow> [] | Some a \<Rightarrow> 58 # digits_of a)))
   = digits_of k"
  by (cases alt) (simp_all add: py_split_none py_split_first digits_no_sep)

lemma key_field_no_semicolon:
  "59 \<notin> set (digits_of k @ (case alt of None \<Rightarrow> [] | Some a \<Rightarrow> 58 # digits_of a))"
  by (cases alt) (simp_all add: digits_no_sep)

lemma parse_payload:
  "parse_csi_u ([CHR 0x1B, CHR ''[''] @ map char_of (key_report_payload k alt me) @ [CHR ''u''])
   = Inr (Some (reported_event k me))"
proof -
  let ?P = "key_report_payload k alt me"
  let ?KA = "digits_of k @ (case alt of None \<Rightarrow> [] | Some a \<Rightarrow> 58 # digits_of a)"
  have pl: "decode_ascii_ignore (butlast (drop 2 ([CHR 0x1B, CHR ''[''] @ map char_of ?P @ [CHR ''u'']))) = ?P"
    by (simp add: butlast_append decode_payload)
  have ne: "?P \<noteq> []" by (simp add: key_report_payload_def digits_of_nonempty)
  have kf: "py_int ascii_ucd (digits_of k) = Inr (int k)" by (rule py_int_digits_of)
  show ?thesis
  proof (cases me)
    case None
    then have P: "?P = ?KA" by (simp add: key_report_payload_def)
    have parts: "py_split 59 ?P = [?KA]"
      unfolding P by (rule py_split_none [OF key_field_no_semicolon])
    have re: "reported_event k me = key_event (int k) 1 1"
      using None by (simp add: reported_event_def)
    show ?thesis
      unfolding parse_csi_u_def pl Let_def re parts
      by (simp add: Let_def parts key_field_head digits_of_nonempty kf ne)
  next
    case (Some mev)
    obtain m ev where mev: "mev = (m, ev)" by (cases mev)
    let ?E = "case ev of None \<Rightarrow> [] | Some t \<Rightarrow> 58 # digits_of t"
    have P: "?P = ?KA @ 59 # (digits_of m @ ?E)"
      using Some mev by (simp add: key_report_payload_def)
    have nosemi: "59 \<notin> set (digits_of m @ ?E)"
      by (cases ev) (simp_all add: digits_no_sep)
    have "py_split 59 (?KA @ 59 # (digits_of m @ ?E)) = ?KA # py_split 59 (digits_of m @ ?E)"
      by (rule py_split_first [OF key_field_no_semicolon])
    then have parts: "py_split 59 ?P = [?KA, digits_of m @ ?E]"
      unfolding P by (simp only: py_split_none [OF nosemi])
    have mf: "digits_of m @ ?E \<noteq> []" by (simp add: digits_of_nonempty)
    show ?thesis
    proof (cases ev)
      case None
      then have E: "digits_of m @ ?E = digits_of m" by simp
      have re: "reported_event k me = key_event (int k) (int m) 1"
        using \<open>me = Some mev\<close> mev None by (simp add: reported_event_def)
      show ?thesis
        unfolding parse_csi_u_def pl Let_def re parts E
        by (simp add: Let_def key_field_head digits_of_nonempty kf ne
            py_int_digits_of digits_no_sep)
    next
      case (Some t)
      have tw: "takeWhile (\<lambda>c. c \<noteq> 58) (digits_of m @ 58 # digits_of t) = digits_of m"
        by (rule takeWhile_sep [OF digits_no_sep(1)])
      have dw: "dropWhile (\<lambda>c. c \<noteq> 58) (digits_of m @ 58 # digits_of t) = 58 # digits_of t"
        by (rule dropWhile_sep [OF digits_no_sep(1)])
      have E: "digits_of m @ ?E = digits_of m @ 58 # digits_of t" using Some by simp
      have re: "reported_event k me = key_event (int k) (int m) (int t)"
        using \<open>me = Some mev\<close> mev Some by (simp add: reported_event_def)
      show ?thesis
        unfolding parse_csi_u_def pl Let_def re parts E
        by (simp add: Let_def key_field_head digits_of_nonempty kf ne
            py_int_digits_of digits_no_sep tw dw)
    qed
  qed
qed


lemma read_key_csi:
  "read_key (CHR 0x1B # CHR ''['' # inp)
   = (let buf = read_csi [CHR 0x1B, CHR ''[''] inp
      in if last buf = CHR ''Z'' then Inr (Some (key_event (- TAB_CODE) 2 1))
         else if last buf = CHR ''I'' then Inr (Some (key_event TAB_CODE 1 1))
         else
           let params = decode_ascii_ignore (butlast (drop 2 buf))
           in if last buf = CHR ''~'' \<and> py_strip ascii_ucd params = [57]
              then Inr (Some (key_event TAB_CODE 1 1))
              else if last buf = CHR ''~'' \<and> py_strip ascii_ucd params = [50, 52]
              then Inr (Some (key_event MARKER_KEY_CODE 1 1))
              else if last buf \<noteq> CHR ''u'' then Inr (Some (key_event ESC_CODE 1 1))
              else parse_csi_u buf)"
  by (simp add: read_key_def)

lemma read_key_report:
  assumes "length (key_report_payload k alt me) \<le> 62"
  shows "read_key (encode_key_report k alt me @ rest) = Inr (Some (reported_event k me))"
proof -
  let ?B = "map char_of (key_report_payload k alt me)"
  have u: "0x40 \<le> (of_char (CHR ''u'') :: nat)" "(of_char (CHR ''u'') :: nat) \<le> 0x7e" by simp_all
  have len: "length [CHR 0x1B, CHR ''[''] + length ?B \<le> 64" using assms by simp
  have buf: "read_csi [CHR 0x1B, CHR ''[''] (?B @ CHR ''u'' # rest)
             = [CHR 0x1B, CHR ''[''] @ ?B @ [CHR ''u'']"
    by (rule read_csi_final [OF payload_bytes_nonfinal u len])
  have inp: "encode_key_report k alt me @ rest = CHR 0x1B # CHR ''['' # (?B @ CHR ''u'' # rest)"
    by (simp add: encode_key_report_def)
  show ?thesis
    unfolding inp read_key_csi buf Let_def
    by (simp add: parse_payload [unfolded append_Cons append_Nil])
qed

lemma read_key_long_report:
  assumes "62 < length (key_report_payload k alt me)"
  shows "read_key (encode_key_report k alt me @ rest) = Inr (Some (key_event ESC_CODE 1 1))"
proof -
  let ?P = "key_report_payload k alt me"
  let ?B = "map char_of ?P"
  have len: "length [CHR 0x1B, CHR ''[''] \<le> 64" "65 \<le> length [CHR 0x1B, CHR ''[''] + length ?B"
    using assms by simp_all
  have buf: "read_csi [CHR 0x1B, CHR ''[''] (?B @ CHR ''u'' # rest)
             = [CHR 0x1B, CHR ''[''] @ take (65 - length [CHR 0x1B, CHR ''['']) ?B"
    by (rule read_csi_cap [OF payload_bytes_nonfinal len])
  have t63: "take 63 ?B \<noteq> []" using assms by auto
  have "last (take 63 ?B) \<in> set ?B"
    using t63 by (meson in_set_takeD last_in_set)
  then obtain c where c: "c \<in> set ?P" "last (take 63 ?B) = char_of c" by auto
  from payload_chars [OF c(1)] have "(of_char (char_of c :: char) :: nat) = c" "48 \<le> c" "c \<le> 59"
    by simp_all
  then have "(of_char (last (take 63 ?B)) :: nat) \<le> 59" using c(2) by simp
  then have nl: "last (take 63 ?B) \<noteq> CHR ''Z''" "last (take 63 ?B) \<noteq> CHR ''I''"
    "last (take 63 ?B) \<noteq> CHR ''~''" "last (take 63 ?B) \<noteq> CHR ''u''"
    by auto
  have inp: "encode_key_report k alt me @ rest = CHR 0x1B # CHR ''['' # (?B @ CHR ''u'' # rest)"
    by (simp add: encode_key_report_def)
  have l: "last ([CHR 0x1B, CHR ''[''] @ take 63 ?B) = last (take 63 ?B)"
    using t63 by simp
  show ?thesis
    unfolding inp read_key_csi buf Let_def
    using nl l by simp
qed

lemma payload_length_bound:
  assumes "k < 10 ^ 10" "\<forall>a. alt = Some a \<longrightarrow> a < 10 ^ 10"
    "\<forall>m ev. me = Some (m, ev) \<longrightarrow> m < 10 ^ 10 \<and> (\<forall>t. ev = Some t \<longrightarrow> t < 10 ^ 10)"
  shows "length (key_report_payload k alt me) \<le> 62"
proof -
  have d: "\<And>n. n < 10 ^ 10 \<Longrightarrow> length (digits_of n) \<le> 10"
    using digits_of_length_upper [of _ 9] by simp
  have k: "length (digits_of k) \<le> 10" using assms(1) by (rule d)
  have a: "length (case alt of None \<Rightarrow> [] | Some a \<Rightarrow> 58 # digits_of a) \<le> 11"
    using assms(2) d by (cases alt) auto
  have m: "length (case me of None \<Rightarrow> []
        | Some (m, ev) \<Rightarrow> 59 # digits_of m @ (case ev of None \<Rightarrow> [] | Some t \<Rightarrow> 58 # digits_of t)) \<le> 22"
  proof (cases me)
    case None
    then show ?thesis by simp
  next
    case (Some mev)
    obtain m ev where mev: "mev = (m, ev)" by (cases mev)
    with Some assms(3) have mm: "length (digits_of m) \<le> 10" using d by auto
    have "length (case ev of None \<Rightarrow> [] | Some t \<Rightarrow> 58 # digits_of t) \<le> 11"
    proof (cases ev)
      case None
      then show ?thesis by simp
    next
      case (Some t)
      with \<open>me = Some mev\<close> mev assms(3) have "t < 10 ^ 10" by auto
      from d [OF this] Some show ?thesis by simp
    qed
    with mm Some mev show ?thesis by simp
  qed
  from k a m show ?thesis by (simp add: key_report_payload_def)
qed

text \<open>
  C1. The decoder can raise: \<open>parse_csi_u\<close> converts the fields with \<open>int\<close> outside its
  \<open>try\<close>, and \<open>run\<close> calls \<open>read_key\<close> outside its own. On the bytes \<open>ESC [ ? u\<close>, and on
  \<open>ESC [ ? 1 u\<close> (the form of a terminal's answer to a keyboard-mode query), the buffer
  ends with \<open>u\<close>, the key field is not a number, and \<open>ValueError\<close> leaves \<open>read_key\<close>
  instead of a bare Escape event.
\<close>

theorem read_key_raises:
  "read_key [CHR 0x1B, CHR ''['', CHR ''?'', CHR ''u''] = Inl ValueError
   \<and> read_key [CHR 0x1B, CHR ''['', CHR ''?'', CHR ''1'', CHR ''u''] = Inl ValueError"
  by code_simp

text \<open>
  C2. For every structured key report \<open>ESC [ key[:alt][;mods[:event]] u\<close> whose fields
  are decimal numbers below \<open>10^10\<close> (the key codes, modifier values and event types of
  the protocol are far smaller), \<open>read_key\<close> returns the event with the encoded code,
  modifiers and event type, every omitted field at its default (mods 1, event type 1),
  whatever bytes follow the report. More precisely this holds for every report whose
  payload (the bytes between \<open>ESC [\<close> and \<open>u\<close>) is at most 62 bytes long, so that the
  whole sequence fits the buffer cap of the decoder, which every report with fields
  below \<open>10^10\<close> does; a report beyond the cap decodes to a bare Escape.
\<close>

theorem read_key_decodes_key_report:
  "(k < 10 ^ 10 \<and> (\<forall>a. alt = Some a \<longrightarrow> a < 10 ^ 10)
        \<and> (\<forall>m ev. me = Some (m, ev) \<longrightarrow> m < 10 ^ 10 \<and> (\<forall>t. ev = Some t \<longrightarrow> t < 10 ^ 10))
       \<longrightarrow> read_key (encode_key_report k alt me @ rest) = Inr (Some (reported_event k me)))
   \<and> (length (key_report_payload k alt me) \<le> 62 \<longrightarrow>
      read_key (encode_key_report k alt me @ rest) = Inr (Some (reported_event k me)))
   \<and> (62 < length (key_report_payload k alt me) \<longrightarrow>
        read_key (encode_key_report k alt me @ rest) = Inr (Some (key_event ESC_CODE 1 1)))
   \<and> (k < 10 ^ 10 \<and> (\<forall>a. alt = Some a \<longrightarrow> a < 10 ^ 10)
        \<and> (\<forall>m ev. me = Some (m, ev) \<longrightarrow> m < 10 ^ 10 \<and> (\<forall>t. ev = Some t \<longrightarrow> t < 10 ^ 10))
       \<longrightarrow> length (key_report_payload k alt me) \<le> 62)
   \<and> reported_event k None = key_event (int k) 1 1
   \<and> reported_event k (Some (m', None)) = key_event (int k) (int m') 1
   \<and> reported_event k (Some (m', Some t')) = key_event (int k) (int m') (int t')"
proof -
  let ?small = "k < 10 ^ 10 \<and> (\<forall>a. alt = Some a \<longrightarrow> a < 10 ^ 10)
        \<and> (\<forall>m ev. me = Some (m, ev) \<longrightarrow> m < 10 ^ 10 \<and> (\<forall>t. ev = Some t \<longrightarrow> t < 10 ^ 10))"
  have len: "?small \<longrightarrow> length (key_report_payload k alt me) \<le> 62"
    using payload_length_bound [of k alt me] by blast
  have short: "length (key_report_payload k alt me) \<le> 62 \<longrightarrow>
      read_key (encode_key_report k alt me @ rest) = Inr (Some (reported_event k me))"
    using read_key_report [of k alt me rest] by blast
  have long: "62 < length (key_report_payload k alt me) \<longrightarrow>
        read_key (encode_key_report k alt me @ rest) = Inr (Some (key_event ESC_CODE 1 1))"
    using read_key_long_report [of k alt me rest] by blast
  have small: "?small \<longrightarrow>
      read_key (encode_key_report k alt me @ rest) = Inr (Some (reported_event k me))"
    using len short by blast
  have r: "reported_event k None = key_event (int k) 1 1"
    "reported_event k (Some (m', None)) = key_event (int k) (int m') 1"
    "reported_event k (Some (m', Some t')) = key_event (int k) (int m') (int t')"
    by (simp_all add: reported_event_def)
  show ?thesis by (intro conjI) (rule small short long len r)+
qed

theorem read_key_decodes_key_report_witness:
  "(97::nat) < 10 ^ 10
   \<and> read_key (encode_key_report 97 (Some 65) (Some (6, Some 2))) = Inr (Some (key_event 97 6 2))
   \<and> read_key (encode_key_report 9 None None) = Inr (Some (key_event 9 1 1))
   \<and> read_key (encode_key_report 9 None (Some (5, None))) = Inr (Some (key_event 9 5 1))
   \<and> 62 < length (key_report_payload (10 ^ 62) None None)
   \<and> read_key (encode_key_report (10 ^ 62) None None) = Inr (Some (key_event ESC_CODE 1 1))"
proof -
  have "62 < length (digits_of (10 ^ 62))" by (rule digits_of_length_lower) simp
  then have long: "62 < length (key_report_payload (10 ^ 62) None None)"
    by (simp add: key_report_payload_def)
  from read_key_decodes_key_report [of 97 "Some 65" "Some (6, Some 2)" "[]", THEN conjunct1]
  have a: "read_key (encode_key_report 97 (Some 65) (Some (6, Some 2))) = Inr (Some (key_event 97 6 2))"
    by (simp add: reported_event_def)
  from read_key_decodes_key_report [of 9 None None "[]", THEN conjunct1]
  have b: "read_key (encode_key_report 9 None None) = Inr (Some (key_event 9 1 1))"
    by (simp add: reported_event_def)
  from read_key_decodes_key_report [of 9 None "Some (5, None)" "[]", THEN conjunct1]
  have c: "read_key (encode_key_report 9 None (Some (5, None))) = Inr (Some (key_event 9 5 1))"
    by (simp add: reported_event_def)
  from read_key_decodes_key_report [of "10 ^ 62" None None "[]"] long
  have d: "read_key (encode_key_report (10 ^ 62) None None) = Inr (Some (key_event ESC_CODE 1 1))"
    by simp
  show ?thesis using long a b c d by simp
qed
section \<open>The preview renderer\<close>

subsection \<open>An SGR parameter that is a digit but not a decimal\<close>

lemma sgr_codes_superscript:
  assumes "uni_digit u 178" "uni_decimal u 178 = None"
  shows "sgr_codes u [[178]] fg bg = Inl ValueError"
  using assms
  by (simp add: py_isdigit_def py_isdigit_char_def py_int_def int_space_def decimal_of_def)

lemma parse_superscript:
  assumes "uni_digit u 178" "uni_decimal u 178 = None"
  shows "parse_ansi_lines u [[27, 91, 178, 109]] = Inl ValueError"
  using sgr_codes_superscript [OF assms]
  by (simp add: sgr_seq_def)

text \<open>
  C10. \<open>render_block_preview\<close> does not return a list of \<open>rows\<close> lines for every
  input: the SGR parameter of the line \<open>ESC [ U+00B2 m\<close> (superscript two) passes
  \<open>code.isdigit()\<close>, and the \<open>int(code)\<close> that follows, outside any \<open>try\<close>, raises
  \<open>ValueError\<close>, which leaves \<open>parse_ansi_lines\<close> and \<open>render_block_preview\<close>. This holds
  for every positive size, every colour mode and every character database in which
  U+00B2 is a digit without a decimal value, as it is in Unicode.
\<close>

theorem render_raises_on_superscript_digit:
  "0 < cols \<and> 0 < rows \<and> uni_digit u 178 \<and> uni_decimal u 178 = None \<longrightarrow>
     render_block_preview u [[27, 91, 178, 109]] cols rows color_mode = Inl ValueError"
  using parse_superscript [of u]
  by (simp add: render_block_preview_def)

theorem render_raises_on_superscript_digit_witness:
  "(0::int) < 1 \<and> uni_digit latin1_ucd 178 \<and> uni_decimal latin1_ucd 178 = None
   \<and> render_block_preview latin1_ucd [[27, 91, 178, 109]] 1 1 [98, 111, 116, 104] = Inl ValueError"
  using render_raises_on_superscript_digit [of 1 1 latin1_ucd "[98, 111, 116, 104]"]
  by (simp add: latin1_ucd_def)

subsection \<open>Trimming of trailing blank rows\<close>

lemma scan_back_Some:
  "scan_back P xs n = Some k \<Longrightarrow>
   0 < k \<and> k \<le> n \<and> P (xs ! (k - 1)) \<and> (\<forall>j. k \<le> j \<and> j < n \<longrightarrow> \<not> P (xs ! j))"
proof (induction n)
  case 0
  then show ?case by simp
next
  case (Suc n)
  show ?case
  proof (cases "P (xs ! n)")
    case True
    with Suc.prems show ?thesis by auto
  next
    case False
    with Suc.prems have "scan_back P xs n = Some k" by simp
    from Suc.IH [OF this] False show ?thesis by (auto simp: less_Suc_eq)
  qed
qed

lemma scan_back_None: "scan_back P xs n = None \<longleftrightarrow> (\<forall>j<n. \<not> P (xs ! j))"
  by (induction n) (auto simp: less_Suc_eq)

lemma content_row_count_found:
  assumes "\<exists>j<length xs. P (xs ! j)"
  shows "1 \<le> content_row_count P xs \<and> content_row_count P xs \<le> length xs
         \<and> P (xs ! (content_row_count P xs - 1))
         \<and> (\<forall>j. content_row_count P xs \<le> j \<and> j < length xs \<longrightarrow> \<not> P (xs ! j))"
proof -
  from assms have "scan_back P xs (length xs) \<noteq> None" by (simp add: scan_back_None)
  then obtain k where k: "scan_back P xs (length xs) = Some k" by auto
  from scan_back_Some [OF k] show ?thesis by (simp add: content_row_count_def k)
qed

lemma content_row_count_blank:
  assumes "\<forall>j<length xs. \<not> P (xs ! j)"
  shows "content_row_count P xs = min (length xs) 1"
  using assms by (simp add: content_row_count_def scan_back_None [THEN iffD2])

lemma content_row_count_unique:
  assumes "k \<le> length xs" "0 < k" "P (xs ! (k - 1))" "\<forall>j. k \<le> j \<and> j < length xs \<longrightarrow> \<not> P (xs ! j)"
  shows "content_row_count P xs = k"
proof -
  have ex: "\<exists>j<length xs. P (xs ! j)" using assms(1,2,3) by (intro exI [of _ "k - 1"]) simp
  let ?c = "content_row_count P xs"
  from content_row_count_found [OF ex]
  have c: "1 \<le> ?c" "?c \<le> length xs" "P (xs ! (?c - 1))"
    "\<forall>j. ?c \<le> j \<and> j < length xs \<longrightarrow> \<not> P (xs ! j)" by simp_all
  have "\<not> ?c < k"
  proof
    assume "?c < k"
    then have "?c \<le> k - 1 \<and> k - 1 < length xs" using assms(1,2) by arith
    with c(4) assms(3) show False by blast
  qed
  moreover have "\<not> k < ?c"
  proof
    assume "k < ?c"
    then have "k \<le> ?c - 1 \<and> ?c - 1 < length xs" using c(1,2) by arith
    with assms(4) c(3) show False by blast
  qed
  ultimately show ?thesis by simp
qed

lemma length_downsample_mask:
  "0 < cols \<Longrightarrow> length (downsample_mask ls cols rows) = nat rows"
  by (simp add: downsample_mask_def Let_def)

lemma length_downsample_color:
  "0 < cols \<Longrightarrow> length (downsample_color ls cols rows) = nat rows"
  by (simp add: downsample_color_def Let_def)


lemma example_content_rows:
  "content_row_count_plain ascii_ucd (replicate 24 [120]) = 24"
  "content_row_count_plain ascii_ucd [] = 0"
  by code_simp+

lemma py_strip_empty: "py_strip u s = [] \<longleftrightarrow> (\<forall>c\<in>set s. py_isspace u c)"
proof
  assume "py_strip u s = []"
  then have "dropWhile (py_isspace u) (rev (dropWhile (py_isspace u) s)) = []"
    by (simp add: py_strip_def)
  then have "\<forall>c\<in>set (rev (dropWhile (py_isspace u) s)). py_isspace u c"
    by (simp only: dropWhile_eq_Nil_conv)
  then have a: "\<forall>c\<in>set (dropWhile (py_isspace u) s). py_isspace u c"
    by (simp only: set_rev)
  have "dropWhile (py_isspace u) s = []"
  proof (rule ccontr)
    assume n: "dropWhile (py_isspace u) s \<noteq> []"
    then have "\<not> py_isspace u (hd (dropWhile (py_isspace u) s))" by (rule hd_dropWhile)
    moreover have "hd (dropWhile (py_isspace u) s) \<in> set (dropWhile (py_isspace u) s)"
      using n by (rule hd_in_set)
    ultimately show False using a by blast
  qed
  then show "\<forall>c\<in>set s. py_isspace u c" by (simp only: dropWhile_eq_Nil_conv)
next
  assume "\<forall>c\<in>set s. py_isspace u c"
  then have "dropWhile (py_isspace u) s = []" by (simp only: dropWhile_eq_Nil_conv)
  then show "py_strip u s = []" by (simp add: py_strip_def del: dropWhile_eq_Nil_conv)
qed

lemma line_has_content_iff:
  "line_has_content u line \<longleftrightarrow> (\<exists>c\<in>set line. \<not> py_isspace u c)"
  by (simp add: line_has_content_def py_strip_empty)

lemma row_has_content_iff:
  "row_has_content u row \<longleftrightarrow> (\<exists>c\<in>set row. \<exists>ch\<in>set (fst c). \<not> py_isspace u ch)"
  by (simp add: row_has_content_def list_ex_iff py_strip_empty)

lemma has_csi_bracket: "has_csi l \<Longrightarrow> 91 \<in> set l"
  by (induction l rule: has_csi.induct) auto

lemma blank_no_csi: "\<not> line_has_content u l \<Longrightarrow> \<not> has_csi l"
proof
  assume b: "\<not> line_has_content u l" and "has_csi l"
  then have "91 \<in> set l" by (simp add: has_csi_bracket)
  moreover have "\<not> py_isspace u 91" by (simp add: py_isspace_def)
  ultimately show False using b by (auto simp: line_has_content_iff)
qed

lemma content_row_count_append_blank:
  assumes c: "\<exists>j<length xs. P (xs ! j)" and b: "\<forall>y\<in>set ys. \<not> P y"
  shows "content_row_count P (xs @ ys) = content_row_count P xs"
proof -
  let ?k = "content_row_count P xs"
  from content_row_count_found [OF c]
  have k: "1 \<le> ?k" "?k \<le> length xs" "P (xs ! (?k - 1))"
    "\<forall>j. ?k \<le> j \<and> j < length xs \<longrightarrow> \<not> P (xs ! j)" by simp_all
  show ?thesis
  proof (rule content_row_count_unique)
    show "?k \<le> length (xs @ ys)" using k(2) by simp
    show "0 < ?k" using k(1) by simp
    have "?k - 1 < length xs" using k(1,2) by arith
    then show "P ((xs @ ys) ! (?k - 1))" using k(3) by (simp add: nth_append)
    show "\<forall>j. ?k \<le> j \<and> j < length (xs @ ys) \<longrightarrow> \<not> P ((xs @ ys) ! j)"
    proof (intro allI impI)
      fix j
      assume j: "?k \<le> j \<and> j < length (xs @ ys)"
      show "\<not> P ((xs @ ys) ! j)"
      proof (cases "j < length xs")
        case True
        with j k(4) show ?thesis by (simp add: nth_append)
      next
        case False
        with j have "j - length xs < length ys" by (simp only: length_append) arith
        then have "ys ! (j - length xs) \<in> set ys" by (rule nth_mem)
        with b False show ?thesis by (simp add: nth_append)
      qed
    qed
  qed
qed

lemma render_plain:
  assumes "0 < cols" "0 < rows" "\<not> list_ex has_csi lines"
  shows "render_block_preview u lines cols rows color_mode
         = Inr (render_plain_mask
                  (downsample_mask (take (content_row_count_plain u lines) lines) cols
                     (min (int (content_row_count_plain u lines)) (rows * 2)))
                  (nat cols) (nat rows))"
  using assms
  by (simp add: render_block_preview_def plain_mask_def plain_source_def effective_rows_def)

lemma render_color:
  assumes "0 < cols" "0 < rows" "list_ex has_csi lines"
  shows "render_block_preview u lines cols rows color_mode
         = ebind (parse_ansi_lines u lines)
             (\<lambda>cells. render_color_mask (mode_of color_mode)
                         (downsample_color (take (content_row_count_cells u cells) cells) cols
                            (min (int (content_row_count_cells u cells)) (rows * 2)))
                         (nat cols) (nat rows))"
  using assms
  by (simp add: render_block_preview_def color_mask_def color_source_def effective_rows_def)

lemma render_append_blank:
  assumes "0 < cols" "0 < rows" "\<not> list_ex has_csi lines"
    and c: "list_ex (line_has_content u) lines"
    and b: "\<forall>l\<in>set blanks. \<not> line_has_content u l"
  shows "render_block_preview u (lines @ blanks) cols rows color_mode
         = render_block_preview u lines cols rows color_mode"
proof -
  have nc: "\<not> list_ex has_csi (lines @ blanks)"
    using assms(3) b blank_no_csi by (auto simp: list_ex_iff)
  from c have ex: "\<exists>j<length lines. line_has_content u (lines ! j)"
    by (auto simp: list_ex_iff in_set_conv_nth)
  have k: "content_row_count_plain u (lines @ blanks) = content_row_count_plain u lines"
    unfolding content_row_count_plain_def
    by (rule content_row_count_append_blank [OF ex b])
  have "content_row_count_plain u lines \<le> length lines"
    using content_row_count_found [OF ex] by (simp add: content_row_count_plain_def)
  then have t: "take (content_row_count_plain u lines) (lines @ blanks)
                = take (content_row_count_plain u lines) lines" by simp
  show ?thesis
    by (simp only: render_plain [OF assms(1,2) nc] render_plain [OF assms(1,2,3)] k t)
qed

lemma content_row_count_le: "content_row_count P xs \<le> length xs"
proof (cases "\<exists>j<length xs. P (xs ! j)")
  case True
  from content_row_count_found [OF True] show ?thesis by simp
next
  case False
  then have "\<forall>j<length xs. \<not> P (xs ! j)" by simp
  from content_row_count_blank [OF this] show ?thesis by simp
qed

text \<open>
  C8, as stated, fails on what is fed to the downsampling: \<open>min(contentRows,
  targetRows * 2)\<close> is the number of mask rows the downsampling is asked for, while the
  rows it reads are all the rows up to the content height. For 24 lines with content
  and 6 target rows, 24 source rows are fed and 12 mask rows requested. The content
  height of an empty list is 0, not 1. The difference shows in the output: of the four
  lines blank, blank, \<open>x\<close>, \<open>x\<close> rendered into one row, \<open>min(4, 2) = 2\<close> source rows would
  be the two blank ones and give a blank, but all four are read and the lower half
  block comes out.
\<close>

theorem content_rows_fed_counterexample:
  "length (plain_source ascii_ucd (replicate 24 [120])) = 24
   \<and> effective_rows (content_row_count_plain ascii_ucd (replicate 24 [120])) 6 = 12
   \<and> content_row_count_plain ascii_ucd [] = 0
   \<and> render_block_preview ascii_ucd [[32], [32], [120], [120]] 1 1 [] = Inr [[0x2584]]
   \<and> render_block_preview ascii_ucd (take 2 [[32], [32], [120], [120]]) 1 1 [] = Inr [[32]]"
proof -
  have a: "length (plain_source ascii_ucd (replicate 24 [120])) = 24"
    "effective_rows (content_row_count_plain ascii_ucd (replicate 24 [120])) 6 = 12"
    "content_row_count_plain ascii_ucd [] = 0"
    by (simp_all add: plain_source_def example_content_rows effective_rows_def)
  have b: "render_block_preview ascii_ucd [[32], [32], [120], [120]] 1 1 [] = Inr [[0x2584]]"
    by code_simp
  have c: "render_block_preview ascii_ucd (take 2 [[32], [32], [120], [120]]) 1 1 [] = Inr [[32]]"
    by code_simp
  show ?thesis by (intro conjI) (rule a b c)+
qed

text \<open>
  C8 (amended). \<open>render_block_preview\<close> first trims trailing blank rows, a row being
  blank when \<open>strip()\<close> leaves nothing of it, that is when all its characters are white
  space (plain path), or nothing of any of its cells (ANSI path). When some row has
  content, the content height is the index of the last row with content plus 1; when
  none has, it is \<open>min(len(lines), 1)\<close>, that is 1 for a non-empty list and 0 for the empty
  one. On both paths the rows handed to the downsampling are all the rows up to the
  content height, and \<open>min(contentRows, targetRows * 2)\<close> is the number of mask rows the
  downsampling is asked for and returns. On the plain path, blank rows after the last
  row with content do not change what is rendered. For 24 lines of which the 14th has
  content and the last 10 are blank, the content height is 14.
\<close>

theorem content_rows_trimmed:
  "(0 < cols \<and> 0 < rows \<and> \<not> list_ex has_csi lines \<longrightarrow>
      render_block_preview u lines cols rows color_mode
      = Inr (render_plain_mask
               (downsample_mask (take (content_row_count_plain u lines) lines) cols
                  (min (int (content_row_count_plain u lines)) (rows * 2)))
               (nat cols) (nat rows)))
   \<and> (0 < cols \<and> 0 < rows \<and> list_ex has_csi lines \<longrightarrow>
      render_block_preview u lines cols rows color_mode
      = ebind (parse_ansi_lines u lines)
          (\<lambda>parsed. render_color_mask (mode_of color_mode)
                      (downsample_color (take (content_row_count_cells u parsed) parsed) cols
                         (min (int (content_row_count_cells u parsed)) (rows * 2)))
                      (nat cols) (nat rows)))
   \<and> (0 < cols \<and> 0 < rows \<and> \<not> list_ex has_csi lines
        \<and> list_ex (line_has_content u) lines
        \<and> (\<forall>l\<in>set blanks. \<not> line_has_content u l) \<longrightarrow>
      render_block_preview u (lines @ blanks) cols rows color_mode
      = render_block_preview u lines cols rows color_mode)
   \<and> (line_has_content u line \<longleftrightarrow> (\<exists>c\<in>set line. \<not> py_isspace u c))
   \<and> (row_has_content u row \<longleftrightarrow> (\<exists>c\<in>set row. \<exists>ch\<in>set (fst c). \<not> py_isspace u ch))
   \<and> ((\<exists>j<length lines. line_has_content u (lines ! j)) \<longrightarrow>
      1 \<le> content_row_count_plain u lines \<and> content_row_count_plain u lines \<le> length lines
      \<and> line_has_content u (lines ! (content_row_count_plain u lines - 1))
      \<and> (\<forall>j. content_row_count_plain u lines \<le> j \<and> j < length lines
             \<longrightarrow> \<not> line_has_content u (lines ! j)))
   \<and> ((\<forall>j<length lines. \<not> line_has_content u (lines ! j)) \<longrightarrow>
        content_row_count_plain u lines = min (length lines) 1)
   \<and> ((\<exists>j<length cells. row_has_content u (cells ! j)) \<longrightarrow>
        1 \<le> content_row_count_cells u cells \<and> content_row_count_cells u cells \<le> length cells
        \<and> row_has_content u (cells ! (content_row_count_cells u cells - 1))
        \<and> (\<forall>j. content_row_count_cells u cells \<le> j \<and> j < length cells
               \<longrightarrow> \<not> row_has_content u (cells ! j)))
   \<and> ((\<forall>j<length cells. \<not> row_has_content u (cells ! j)) \<longrightarrow>
        content_row_count_cells u cells = min (length cells) 1)
   \<and> length (take (content_row_count_plain u lines) lines) = content_row_count_plain u lines
   \<and> length (take (content_row_count_cells u cells) cells) = content_row_count_cells u cells
   \<and> (0 < cols \<longrightarrow>
        length (downsample_mask (take (content_row_count_plain u lines) lines) cols
                  (min (int (content_row_count_plain u lines)) (rows * 2)))
          = nat (min (int (content_row_count_plain u lines)) (rows * 2))
        \<and> length (downsample_color (take (content_row_count_cells u cells) cells) cols
                    (min (int (content_row_count_cells u cells)) (rows * 2)))
          = nat (min (int (content_row_count_cells u cells)) (rows * 2)))
   \<and> (length lines = 24 \<and> line_has_content u (lines ! 13)
        \<and> (\<forall>j. 14 \<le> j \<and> j < 24 \<longrightarrow> \<not> line_has_content u (lines ! j)) \<longrightarrow>
        content_row_count_plain u lines = 14)"
proof -
  have c1: "0 < cols \<and> 0 < rows \<and> \<not> list_ex has_csi lines \<longrightarrow>
      render_block_preview u lines cols rows color_mode
      = Inr (render_plain_mask
               (downsample_mask (take (content_row_count_plain u lines) lines) cols
                  (min (int (content_row_count_plain u lines)) (rows * 2)))
               (nat cols) (nat rows))"
    using render_plain by blast
  have c2: "0 < cols \<and> 0 < rows \<and> list_ex has_csi lines \<longrightarrow>
      render_block_preview u lines cols rows color_mode
      = ebind (parse_ansi_lines u lines)
          (\<lambda>parsed. render_color_mask (mode_of color_mode)
                      (downsample_color (take (content_row_count_cells u parsed) parsed) cols
                         (min (int (content_row_count_cells u parsed)) (rows * 2)))
                      (nat cols) (nat rows))"
    using render_color by blast
  have c3: "0 < cols \<and> 0 < rows \<and> \<not> list_ex has_csi lines
        \<and> list_ex (line_has_content u) lines
        \<and> (\<forall>l\<in>set blanks. \<not> line_has_content u l) \<longrightarrow>
      render_block_preview u (lines @ blanks) cols rows color_mode
      = render_block_preview u lines cols rows color_mode"
    using render_append_blank by blast
  have c4: "line_has_content u line \<longleftrightarrow> (\<exists>c\<in>set line. \<not> py_isspace u c)"
    by (rule line_has_content_iff)
  have c5: "row_has_content u row \<longleftrightarrow> (\<exists>c\<in>set row. \<exists>ch\<in>set (fst c). \<not> py_isspace u ch)"
    by (rule row_has_content_iff)
  have c6: "(\<exists>j<length lines. line_has_content u (lines ! j)) \<longrightarrow>
      1 \<le> content_row_count_plain u lines \<and> content_row_count_plain u lines \<le> length lines
      \<and> line_has_content u (lines ! (content_row_count_plain u lines - 1))
      \<and> (\<forall>j. content_row_count_plain u lines \<le> j \<and> j < length lines
             \<longrightarrow> \<not> line_has_content u (lines ! j))"
    unfolding content_row_count_plain_def using content_row_count_found by blast
  have c7: "(\<forall>j<length lines. \<not> line_has_content u (lines ! j)) \<longrightarrow>
        content_row_count_plain u lines = min (length lines) 1"
    unfolding content_row_count_plain_def using content_row_count_blank by blast
  have c8: "(\<exists>j<length cells. row_has_content u (cells ! j)) \<longrightarrow>
        1 \<le> content_row_count_cells u cells \<and> content_row_count_cells u cells \<le> length cells
        \<and> row_has_content u (cells ! (content_row_count_cells u cells - 1))
        \<and> (\<forall>j. content_row_count_cells u cells \<le> j \<and> j < length cells
               \<longrightarrow> \<not> row_has_content u (cells ! j))"
    unfolding content_row_count_cells_def using content_row_count_found by blast
  have c9: "(\<forall>j<length cells. \<not> row_has_content u (cells ! j)) \<longrightarrow>
        content_row_count_cells u cells = min (length cells) 1"
    unfolding content_row_count_cells_def using content_row_count_blank by blast
  have c10: "length (take (content_row_count_plain u lines) lines) = content_row_count_plain u lines"
    using content_row_count_le [of "line_has_content u" lines]
    by (simp add: content_row_count_plain_def)
  have c11: "length (take (content_row_count_cells u cells) cells) = content_row_count_cells u cells"
    using content_row_count_le [of "row_has_content u" cells]
    by (simp add: content_row_count_cells_def)
  have c12: "0 < cols \<longrightarrow>
        length (downsample_mask (take (content_row_count_plain u lines) lines) cols
                  (min (int (content_row_count_plain u lines)) (rows * 2)))
          = nat (min (int (content_row_count_plain u lines)) (rows * 2))
        \<and> length (downsample_color (take (content_row_count_cells u cells) cells) cols
                    (min (int (content_row_count_cells u cells)) (rows * 2)))
          = nat (min (int (content_row_count_cells u cells)) (rows * 2))"
    using length_downsample_mask length_downsample_color by blast
  have c13: "length lines = 24 \<and> line_has_content u (lines ! 13)
        \<and> (\<forall>j. 14 \<le> j \<and> j < 24 \<longrightarrow> \<not> line_has_content u (lines ! j)) \<longrightarrow>
        content_row_count_plain u lines = 14"
  proof
    assume a: "length lines = 24 \<and> line_has_content u (lines ! 13)
        \<and> (\<forall>j. 14 \<le> j \<and> j < 24 \<longrightarrow> \<not> line_has_content u (lines ! j))"
    have "content_row_count (line_has_content u) lines = 14"
    proof (rule content_row_count_unique)
      show "14 \<le> length lines" using a by simp
      show "(0::nat) < 14" by simp
      show "line_has_content u (lines ! (14 - 1))" using a by simp
      show "\<forall>j. 14 \<le> j \<and> j < length lines \<longrightarrow> \<not> line_has_content u (lines ! j)" using a by simp
    qed
    then show "content_row_count_plain u lines = 14" by (simp add: content_row_count_plain_def)
  qed
  show ?thesis
    by (intro conjI) (rule c1 c2 c3 c4 c5 c6 c7 c8 c9 c10 c11 c12 c13)+
qed

theorem content_rows_trimmed_witness:
  "render_block_preview ascii_ucd ([[120, 32], [32, 120]] @ [[32, 32, 32], [9]]) 2 1 []
     = render_block_preview ascii_ucd [[120, 32], [32, 120]] 2 1 []
   \<and> render_block_preview ascii_ucd [[120, 32], [32, 120]] 2 1 [] = Inr [[0x2580, 0x2584]]
   \<and> length (replicate 14 [120::nat] @ replicate 10 [32, 32]) = 24
   \<and> line_has_content ascii_ucd ((replicate 14 [120] @ replicate 10 [32, 32]) ! 13)
   \<and> \<not> list_ex (line_has_content ascii_ucd) (drop 14 (replicate 14 [120] @ replicate 10 [32, 32]))
   \<and> content_row_count_plain ascii_ucd (replicate 14 [120] @ replicate 10 [32, 32]) = 14
   \<and> length (downsample_mask
               (take (content_row_count_plain ascii_ucd (replicate 14 [120] @ replicate 10 [32, 32]))
                  (replicate 14 [120] @ replicate 10 [32, 32])) 40
               (min (int (content_row_count_plain ascii_ucd
                            (replicate 14 [120] @ replicate 10 [32, 32]))) (6 * 2))) = 12"
proof -
  let ?ls = "replicate 14 [120::nat] @ replicate 10 [32, 32]"
  let ?xs = "[[120, 32], [32, 120]] :: pystr list"
  let ?bs = "[[32, 32, 32], [9]] :: pystr list"
  have c13: "line_has_content ascii_ucd (?ls ! 13)"
    by (simp add: nth_append line_has_content_def py_strip_def py_isspace_def)
  have blank: "\<forall>j. 14 \<le> j \<and> j < 24 \<longrightarrow> \<not> line_has_content ascii_ucd (?ls ! j)"
    by (auto simp: nth_append line_has_content_def py_strip_def py_isspace_def)
  have nb: "\<not> list_ex (line_has_content ascii_ucd) (drop 14 ?ls)"
    by (simp add: list_ex_iff line_has_content_def py_strip_def py_isspace_def)
  have len: "length ?ls = 24" by simp
  note T = content_rows_trimmed [of 40 6 ?ls ascii_ucd "[]" "[]" "[]" "[]" "[]"]
  from T [THEN conjunct2, THEN conjunct2, THEN conjunct2, THEN conjunct2, THEN conjunct2, THEN conjunct2, THEN conjunct2, THEN conjunct2, THEN conjunct2, THEN conjunct2, THEN conjunct2, THEN conjunct2] len c13 blank
  have k: "content_row_count_plain ascii_ucd ?ls = 14" by blast
  from T [THEN conjunct2, THEN conjunct2, THEN conjunct2, THEN conjunct2, THEN conjunct2, THEN conjunct2, THEN conjunct2, THEN conjunct2, THEN conjunct2, THEN conjunct2, THEN conjunct2, THEN conjunct1]
  have "length (downsample_mask (take (content_row_count_plain ascii_ucd ?ls) ?ls) 40
                  (min (int (content_row_count_plain ascii_ucd ?ls)) (6 * 2)))
          = nat (min (int (content_row_count_plain ascii_ucd ?ls)) (6 * 2))"
    by simp
  then have m: "length (downsample_mask (take (content_row_count_plain ascii_ucd ?ls) ?ls) 40
                  (min (int (content_row_count_plain ascii_ucd ?ls)) (6 * 2))) = 12"
    by (simp add: k)
  note R = content_rows_trimmed [of 2 1 ?xs ascii_ucd "[]" ?bs "[]" "[]" "[]"]
  have h1: "\<not> list_ex has_csi ?xs" by simp
  have h2: "list_ex (line_has_content ascii_ucd) ?xs"
    by (simp add: line_has_content_def py_strip_def py_isspace_def)
  have h3: "\<forall>l\<in>set ?bs. \<not> line_has_content ascii_ucd l"
    by (simp add: line_has_content_def py_strip_def py_isspace_def)
  have z: "(0::int) < 2 \<and> (0::int) < 1" by simp
  from R [THEN conjunct2, THEN conjunct2, THEN conjunct1] z h1 h2 h3
  have r: "render_block_preview ascii_ucd (?xs @ ?bs) 2 1 []
           = render_block_preview ascii_ucd ?xs 2 1 []"
    by blast
  have v: "render_block_preview ascii_ucd ?xs 2 1 [] = Inr [[0x2580, 0x2584]]"
    by code_simp
  show ?thesis by (intro conjI) (rule r v len c13 nb k m)+
qed

subsection \<open>Attribution of the foreground colour\<close>

lemma map_of_dict_set: "map_of (dict_set d k v) = (map_of d)(k \<mapsto> v)"
  by (induction d) (auto simp: fun_eq_iff)

lemma map_fst_dict_set:
  "map fst (dict_set d k v) = (if k \<in> set (map fst d) then map fst d else map fst d @ [k])"
  by (induction d) (auto split: if_splits)

lemma keys_dict_set: "fst ` set (dict_set d k v) = insert k (fst ` set d)"
  using map_fst_dict_set [of d k v, THEN arg_cong, of set] by (auto split: if_splits)

lemma distinct_dict_set: "distinct (map fst d) \<Longrightarrow> distinct (map fst (dict_set d k v))"
  by (simp add: map_fst_dict_set)

lemma tally_fold:
  "map_of (fold (\<lambda>k d. dict_set d k (dict_get d k 0 + 1)) ks d) k
   = (if k \<in> set ks \<or> k \<in> fst ` set d then Some (dict_get d k 0 + count_list ks k) else None)"
proof (induction ks arbitrary: d)
  case Nil
  show ?case
    by (cases "map_of d k") (auto simp: dict_get_def map_of_eq_None_iff dest: map_of_SomeD
        intro: rev_image_eqI)
next
  case (Cons a ks)
  let ?d = "dict_set d a (dict_get d a 0 + 1)"
  have g: "dict_get ?d k 0 = (if k = a then dict_get d a 0 + 1 else dict_get d k 0)"
    by (simp add: dict_get_def map_of_dict_set)
  have m: "k \<in> fst ` set ?d \<longleftrightarrow> k = a \<or> k \<in> fst ` set d" by (simp add: keys_dict_set)
  show ?case
    by (simp only: fold.simps o_apply Cons.IH [of ?d] g m) auto
qed

lemma tally_distinct: "distinct (map fst (tally ks))"
proof -
  have d: "distinct (map fst d) \<Longrightarrow>
          distinct (map fst (fold (\<lambda>k d. dict_set d k (dict_get d k 0 + 1)) ks d))" for d
  proof (induction ks arbitrary: d)
    case Nil
    then show ?case by simp
  next
    case (Cons a ks)
    show ?case
      by (simp only: fold.simps o_apply) (rule Cons.IH, rule distinct_dict_set, rule Cons.prems)
  qed
  show ?thesis unfolding tally_def by (rule d) simp
qed

lemma tally_count:
  "map_of (tally ks) k = (if k \<in> set ks then Some (count_list ks k) else None)"
  using tally_fold [of ks "[]" k] by (simp add: tally_def dict_get_def)

lemma tally_empty: "tally ks = [] \<longleftrightarrow> ks = []"
proof
  assume e: "tally ks = []"
  have "k \<notin> set ks" for k
    using tally_count [of ks k] e by (simp split: if_splits)
  then show "ks = []" by (cases ks) auto
next
  assume "ks = []"
  then show "tally ks = []" by (simp add: tally_def)
qed

lemma max_key_from_max:
  "\<exists>v. (max_key_from best d, v) \<in> set (best # d) \<and> (\<forall>kv\<in>set (best # d). snd kv \<le> v)"
proof (induction d arbitrary: best)
  case Nil
  show ?case by (intro exI [of _ "snd best"]) simp
next
  case (Cons kv d)
  let ?b = "if snd best < snd kv then kv else best"
  from Cons.IH [of ?b] obtain v where v: "(max_key_from ?b d, v) \<in> set (?b # d)"
    "\<forall>x\<in>set (?b # d). snd x \<le> v" by blast
  have "(max_key_from best (kv # d), v) \<in> set (best # kv # d)" using v(1) by auto
  moreover have "\<forall>x\<in>set (best # kv # d). snd x \<le> v"
    using v(2) by (auto split: if_splits)
  ultimately show ?case by blast
qed

lemma max_key_tally:
  assumes "max_key (tally ks) = Some k"
  shows "k \<in> set ks \<and> (\<forall>k'. count_list ks k' \<le> count_list ks k)"
proof -
  from assms obtain kv rest where d: "tally ks = kv # rest" "k = max_key_from kv rest"
    by (cases "tally ks") (auto simp: max_key_def)
  from max_key_from_max [of kv rest] d obtain v where v: "(k, v) \<in> set (tally ks)"
    "\<forall>x\<in>set (tally ks). snd x \<le> v" by auto
  from v(1) tally_distinct [of ks] have mk: "map_of (tally ks) k = Some v" by simp
  then have k: "k \<in> set ks" "v = count_list ks k" by (auto simp: tally_count split: if_splits)
  have "\<And>k'. count_list ks k' \<le> count_list ks k"
  proof -
    fix k'
    show "count_list ks k' \<le> count_list ks k"
    proof (cases "k' \<in> set ks")
      case True
      then have "map_of (tally ks) k' = Some (count_list ks k')" by (simp add: tally_count)
      then have "(k', count_list ks k') \<in> set (tally ks)" by (rule map_of_SomeD)
      with v(2) k(2) show ?thesis by auto
    next
      case False
      then show ?thesis by (simp add: count_list_0_iff)
    qed
  qed
  with k(1) show ?thesis by blast
qed

lemma fold_tally_keys_prefix:
  "\<exists>ys. map fst (fold (\<lambda>k d. dict_set d k (dict_get d k 0 + 1)) ks d) = map fst d @ ys"
proof (induction ks arbitrary: d)
  case Nil
  show ?case by simp
next
  case (Cons a ks)
  let ?d = "dict_set d a (dict_get d a 0 + 1)"
  from Cons.IH [of ?d] obtain ys where
    ys: "map fst (fold (\<lambda>k d. dict_set d k (dict_get d k 0 + 1)) ks ?d) = map fst ?d @ ys"
    by blast
  show ?case
  proof (cases "a \<in> set (map fst d)")
    case True
    then show ?thesis using ys by (simp add: map_fst_dict_set)
  next
    case False
    then show ?thesis using ys by (simp add: map_fst_dict_set)
  qed
qed

lemma fold_tally_before:
  assumes "fold (\<lambda>k d. dict_set d k (dict_get d k 0 + 1)) ks d = pre @ (k, v) # post"
    and "k \<notin> fst ` set d"
  shows "set (takeWhile (\<lambda>x. x \<noteq> k) ks) \<subseteq> fst ` set pre"
  using assms
proof (induction ks arbitrary: d)
  case Nil
  show ?case by simp
next
  case (Cons a ks)
  show ?case
  proof (cases "a = k")
    case True
    then show ?thesis by simp
  next
    case False
    let ?d = "dict_set d a (dict_get d a 0 + 1)"
    have f: "fold (\<lambda>k d. dict_set d k (dict_get d k 0 + 1)) ks ?d = pre @ (k, v) # post"
      using Cons.prems(1) by simp
    have nk: "k \<notin> fst ` set ?d" using Cons.prems(2) False by (simp add: keys_dict_set)
    from Cons.IH [OF f nk] have r: "set (takeWhile (\<lambda>x. x \<noteq> k) ks) \<subseteq> fst ` set pre" .
    from fold_tally_keys_prefix [of ks ?d] f obtain ys where
      ys: "map fst pre @ k # map fst post = map fst ?d @ ys" by auto
    have ad: "a \<in> set (map fst ?d)" using keys_dict_set [of d a] by simp
    have kd: "k \<notin> set (map fst ?d)" using nk by simp
    from ys obtain us where
      "(map fst pre = map fst ?d @ us \<and> us @ k # map fst post = ys)
       \<or> (map fst pre @ us = map fst ?d \<and> k # map fst post = us @ ys)"
      by (auto simp: append_eq_append_conv2)
    then have "a \<in> set (map fst pre)"
    proof
      assume "map fst pre = map fst ?d @ us \<and> us @ k # map fst post = ys"
      then show ?thesis using ad by simp
    next
      assume c: "map fst pre @ us = map fst ?d \<and> k # map fst post = us @ ys"
      show ?thesis
      proof (cases us)
        case Nil
        with c ad show ?thesis by simp
      next
        case (Cons x xs)
        with c have "x = k" by simp
        with Cons c have "k \<in> set (map fst ?d)" by (metis in_set_conv_decomp)
        with kd show ?thesis by simp
      qed
    qed
    then have "a \<in> fst ` set pre" by simp
    with r False show ?thesis by simp
  qed
qed

lemma max_key_from_first:
  "\<exists>pre v post. best # d = pre @ (max_key_from best d, v) # post
      \<and> (\<forall>x\<in>set pre. snd x < v) \<and> (\<forall>x\<in>set post. snd x \<le> v)"
proof (induction d arbitrary: best)
  case Nil
  show ?case by (intro exI [of _ "[]"] exI [of _ "snd best"]) simp
next
  case (Cons kv d)
  define b where "b = (if snd best < snd kv then kv else best)"
  define m where "m = max_key_from best (kv # d)"
  have m: "m = max_key_from b d" by (simp add: m_def b_def)
  from Cons.IH [of b] obtain pre v post where
    p: "b # d = pre @ (m, v) # post" "\<forall>x\<in>set pre. snd x < v" "\<forall>x\<in>set post. snd x \<le> v"
    unfolding m by blast
  have goal: "\<exists>pre v post. best # kv # d = pre @ (m, v) # post
      \<and> (\<forall>x\<in>set pre. snd x < v) \<and> (\<forall>x\<in>set post. snd x \<le> v)"
  proof (cases pre)
    case Nil
    with p(1) have bm: "b = (m, v)" and dp: "d = post" by simp_all
    show ?thesis
    proof (cases "snd best < snd kv")
      case True
      then have "b = kv" by (simp add: b_def)
      with bm dp have "best # kv # d = [best] @ (m, v) # post" by simp
      moreover have "\<forall>x\<in>set [best]. snd x < v" using True \<open>b = kv\<close> bm by auto
      ultimately show ?thesis using p(3) by blast
    next
      case False
      then have "b = best" by (simp add: b_def)
      with bm dp have "best # kv # d = [] @ (m, v) # (kv # post)" by simp
      moreover have "\<forall>x\<in>set (kv # post). snd x \<le> v" using False \<open>b = best\<close> bm p(3) by auto
      ultimately show ?thesis by (metis empty_iff list.set(1))
    qed
  next
    case (Cons x xs)
    with p(1) have bx: "b = x" and dp: "d = xs @ (m, v) # post" by simp_all
    from Cons p(2) bx have bv: "snd b < v" by simp
    have "best # kv # d = (best # kv # xs) @ (m, v) # post" using dp by simp
    moreover have "\<forall>x\<in>set (best # kv # xs). snd x < v"
      using p(2) Cons bv by (auto simp: b_def split: if_splits)
    ultimately show ?thesis using p(3) by blast
  qed
  then show ?case unfolding m_def .
qed

lemma max_key_tally_first:
  assumes "max_key (tally ks) = Some k"
  shows "\<forall>k'\<in>set (takeWhile (\<lambda>x. x \<noteq> k) ks). count_list ks k' < count_list ks k"
proof
  fix k'
  assume k': "k' \<in> set (takeWhile (\<lambda>x. x \<noteq> k) ks)"
  from assms obtain kv rest where d: "tally ks = kv # rest" "k = max_key_from kv rest"
    by (cases "tally ks") (auto simp: max_key_def)
  from max_key_from_first [of kv rest] d obtain pre v post where
    p: "tally ks = pre @ (k, v) # post" "\<forall>x\<in>set pre. snd x < v" by auto
  have cnt: "(x, n) \<in> set (tally ks) \<Longrightarrow> n = count_list ks x" for x n
    using tally_distinct [of ks] tally_count [of ks x]
    by (auto split: if_splits)
  have v: "v = count_list ks k" using p(1) by (intro cnt) simp
  from fold_tally_before [of ks "[]" pre k v post] p(1) k'
  have "k' \<in> fst ` set pre" by (auto simp: tally_def)
  then obtain n where n: "(k', n) \<in> set pre" by auto
  with p(1) have "n = count_list ks k'" by (intro cnt) simp
  with n p(2) v show "count_list ks k' < count_list ks k" by auto
qed

lemma max_key_nonempty: "d \<noteq> [] \<Longrightarrow> max_key d \<noteq> None"
  by (cases d) (simp_all add: max_key_def)

lemma downsample_color_nth:
  assumes "0 < cols" "0 < rows" "lines \<noteq> []" "r < nat rows" "c < nat cols"
  shows "downsample_color lines cols rows ! r ! c
         = color_cell (sub_cells lines (span r (length lines) (nat rows))
                         (span c (max_len_of lines) (nat cols)))"
  using assms by (simp add: downsample_color_def Let_def)


lemma color_cell_shape:
  "\<exists>fg bg. color_cell cells = Cell3 (fill_ok cells \<or> bg_colors cells \<noteq> []) fg bg
     \<and> (fg \<noteq> None \<longleftrightarrow>
          (fill_ok cells \<or> bg_colors cells \<noteq> []) \<and> fg_colors cells \<noteq> []
          \<and> 0.35 \<le> real (length (fg_colors cells)) / real (max (filled_count cells) 1))
     \<and> (\<forall>col. fg = Some col \<longrightarrow>
            col \<in> set (fg_colors cells)
            \<and> (\<forall>col'. count_list (fg_colors cells) col' \<le> count_list (fg_colors cells) col)
            \<and> (\<forall>col'\<in>set (takeWhile (\<lambda>x. x \<noteq> col) (fg_colors cells)).
                  count_list (fg_colors cells) col' < count_list (fg_colors cells) col))"
proof -
  have ok: "color_ok cells \<longleftrightarrow>
              fg_colors cells \<noteq> []
              \<and> 0.35 \<le> real (length (fg_colors cells)) / real (max (filled_count cells) 1)"
    by (simp add: color_ok_def tally_empty COLOR_THRESHOLD_def COLOR_TOTAL_THRESHOLD_def)
  show ?thesis
  proof (cases "fill_ok cells \<or> bg_colors cells \<noteq> []")
    case False
    then show ?thesis by (simp add: color_cell_def)
  next
    case True
    show ?thesis
    proof (cases "color_ok cells")
      case False
      with True ok show ?thesis by (simp add: color_cell_def)
    next
      case c: True
      then have "tally (fg_colors cells) \<noteq> []" by (simp add: color_ok_def)
      then obtain col where col: "max_key (tally (fg_colors cells)) = Some col"
        using max_key_nonempty by fastforce
      have cc: "color_cell cells
                = Cell3 True (Some col)
                    (if tally (bg_colors cells) \<noteq> [] then max_key (tally (bg_colors cells))
                     else None)"
        using True c col by (simp add: color_cell_def)
      note m = max_key_tally [OF col] max_key_tally_first [OF col]
      show ?thesis
        apply (rule exI [of _ "Some col"])
        apply (rule exI [of _ "if tally (bg_colors cells) \<noteq> []
                               then max_key (tally (bg_colors cells)) else None"])
        using True c ok cc m by (simp del: split_paired_All split_paired_Ex)
    qed
  qed
qed

lemma tally_Nil: "tally [] = []"
  by (simp add: tally_def)

lemma fg_colors_example:
  "fg_colors (example_colored_cells n col) = replicate n col"
  by (induction n) (simp_all add: fg_colors_def example_colored_cells_def)

lemma filled_count_example:
  "n \<le> 10 \<Longrightarrow> filled_count (example_colored_cells n col) = 10"
  by (simp add: filled_count_def example_colored_cells_def)

lemma bg_colors_example:
  "bg_colors (example_colored_cells n col) = []"
  by (simp add: bg_colors_def example_colored_cells_def)

lemma fill_ok_example: "n \<le> 10 \<Longrightarrow> fill_ok (example_colored_cells n col)"
  by (simp add: fill_ok_def filled_count_example FILL_THRESHOLD_def)
    (simp add: example_colored_cells_def)

lemma color_cell_example_40:
  "color_cell (example_colored_cells 4 col) = Cell3 True (Some col) None"
proof -
  have t: "tally (replicate 4 col) = [(col, 4)]"
    by (simp add: tally_def numeral_eq_Suc dict_get_def)
  show ?thesis
    by (simp add: color_cell_def fill_ok_example color_ok_def fg_colors_example
        bg_colors_example filled_count_example t max_key_def tally_Nil
        COLOR_THRESHOLD_def COLOR_TOTAL_THRESHOLD_def)
qed

lemma color_cell_example_30:
  "color_cell (example_colored_cells 3 col) = Cell3 True None None"
  by (simp add: color_cell_def fill_ok_example color_ok_def fg_colors_example
        bg_colors_example filled_count_example tally_Nil
        COLOR_THRESHOLD_def COLOR_TOTAL_THRESHOLD_def)

text \<open>
  C7, as the specification states it: a foreground colour is attributed only to a
  sub-rectangle that passes the fill threshold of 0.2. The sub-rectangle
  \<^const>\<open>example_sparse_row\<close> has one glyph in ten cells, so its fill ratio is 0.1 and the
  fill test fails; but one of its cells has a background colour, which alone opens the
  branch that attributes colours, and the red foreground of the single glyph is
  attributed.
\<close>

theorem foreground_without_fill_counterexample:
  "color_cell example_sparse_row = Cell3 True (Some (255, 0, 0)) (Some (0, 0, 255))
   \<and> \<not> fill_ok example_sparse_row
   \<and> real (filled_count example_sparse_row) / real (max (length example_sparse_row) 1) = 0.1
   \<and> downsample_color [example_sparse_row] 1 1
       = [[Cell3 True (Some (255, 0, 0)) (Some (0, 0, 255))]]"
  by code_simp

text \<open>
  C7, amended. Each cell of the colour mask is \<^const>\<open>color_cell\<close> of its sub-rectangle.
  The cell is filled when the sub-rectangle passes the fill threshold (at least one glyph
  and a ratio of glyphs to cells of at least 0.2) or holds a background colour. A
  foreground colour is attributed exactly when the cell is filled in that sense, some
  glyph has a foreground colour, and the glyphs with a foreground colour are at least
  0.35 of the glyphs. The attributed colour occurs among the glyphs, no colour occurs
  more often, and every colour seen before it in the order of the visit (row by row)
  occurs strictly less often: it is the first seen of the most frequent colours. With
  ten glyphs, four of one colour attribute that colour and three attribute none; of
  the colours red, blue, blue, red, it is red that is attributed.
\<close>

theorem foreground_attribution:
  "(0 < cols \<and> 0 < rows \<and> lines \<noteq> [] \<and> r < nat rows \<and> c < nat cols \<longrightarrow>
      downsample_color lines cols rows ! r ! c
      = color_cell (sub_cells lines (span r (length lines) (nat rows))
                      (span c (max_len_of lines) (nat cols))))
   \<and> (\<exists>fg bg. color_cell cells = Cell3 (fill_ok cells \<or> bg_colors cells \<noteq> []) fg bg
        \<and> (fg \<noteq> None \<longleftrightarrow>
             (fill_ok cells \<or> bg_colors cells \<noteq> []) \<and> fg_colors cells \<noteq> []
             \<and> 0.35 \<le> real (length (fg_colors cells)) / real (max (filled_count cells) 1))
        \<and> (\<forall>col. fg = Some col \<longrightarrow>
               col \<in> set (fg_colors cells)
               \<and> (\<forall>col'. count_list (fg_colors cells) col'
                           \<le> count_list (fg_colors cells) col)
               \<and> (\<forall>col'\<in>set (takeWhile (\<lambda>x. x \<noteq> col) (fg_colors cells)).
                     count_list (fg_colors cells) col' < count_list (fg_colors cells) col)))
   \<and> (fill_ok cells \<longleftrightarrow>
        0 < filled_count cells
        \<and> 0.2 \<le> real (filled_count cells) / real (max (length cells) 1))
   \<and> color_cell (example_colored_cells 4 rgb1) = Cell3 True (Some rgb1) None
   \<and> color_cell (example_colored_cells 3 rgb1) = Cell3 True None None
   \<and> color_cell example_tie_cells = Cell3 True (Some (255, 0, 0)) None"
proof -
  have a: "0 < cols \<and> 0 < rows \<and> lines \<noteq> [] \<and> r < nat rows \<and> c < nat cols \<longrightarrow>
      downsample_color lines cols rows ! r ! c
      = color_cell (sub_cells lines (span r (length lines) (nat rows))
                      (span c (max_len_of lines) (nat cols)))"
    using downsample_color_nth by blast
  have f: "fill_ok cells \<longleftrightarrow>
        0 < filled_count cells
        \<and> 0.2 \<le> real (filled_count cells) / real (max (length cells) 1)"
    by (simp add: fill_ok_def FILL_THRESHOLD_def)
  have t: "color_cell example_tie_cells = Cell3 True (Some (255, 0, 0)) None"
    by code_simp
  show ?thesis
    by (intro conjI) (rule a color_cell_shape f color_cell_example_40 color_cell_example_30 t)+
qed

theorem foreground_attribution_witness:
  "downsample_color [example_sparse_row] 1 1 ! 0 ! 0
   = color_cell (sub_cells [example_sparse_row] (span 0 1 1)
                   (span 0 (max_len_of [example_sparse_row]) 1))
   \<and> color_cell example_tie_cells = Cell3 True (Some (255, 0, 0)) None
   \<and> (255, 0, 0) \<in> set (fg_colors example_tie_cells)
   \<and> takeWhile (\<lambda>x. x \<noteq> (255, 0, 0)) (fg_colors example_tie_cells) = []
   \<and> count_list (fg_colors example_tie_cells) (0, 0, 255)
       \<le> count_list (fg_colors example_tie_cells) (255, 0, 0)"
proof -
  note t = foreground_attribution [of 1 1 "[example_sparse_row]" 0 0
      example_tie_cells "(255, 0, 0)"]
  have a: "downsample_color [example_sparse_row] 1 1 ! 0 ! 0
   = color_cell (sub_cells [example_sparse_row] (span 0 1 1)
                   (span 0 (max_len_of [example_sparse_row]) 1))"
    using t [THEN conjunct1] by simp
  have b: "color_cell example_tie_cells = Cell3 True (Some (255, 0, 0)) None"
    using t [THEN conjunct2, THEN conjunct2, THEN conjunct2, THEN conjunct2, THEN conjunct2] .
  from t [THEN conjunct2, THEN conjunct1] obtain fg bg where
    s: "color_cell example_tie_cells
        = Cell3 (fill_ok example_tie_cells \<or> bg_colors example_tie_cells \<noteq> []) fg bg"
    and m: "\<forall>col. fg = Some col \<longrightarrow>
               col \<in> set (fg_colors example_tie_cells)
               \<and> (\<forall>col'. count_list (fg_colors example_tie_cells) col'
                           \<le> count_list (fg_colors example_tie_cells) col)
               \<and> (\<forall>col'\<in>set (takeWhile (\<lambda>x. x \<noteq> col) (fg_colors example_tie_cells)).
                     count_list (fg_colors example_tie_cells) col'
                     < count_list (fg_colors example_tie_cells) col)"
    by blast
  from s b have fg: "fg = Some (255, 0, 0)" by simp
  with m have c: "(255, 0, 0) \<in> set (fg_colors example_tie_cells)" by blast
  from m fg have d: "count_list (fg_colors example_tie_cells) (0, 0, 255)
       \<le> count_list (fg_colors example_tie_cells) (255, 0, 0)" by blast
  have e: "takeWhile (\<lambda>x. x \<noteq> (255, 0, 0)) (fg_colors example_tie_cells) = []"
    by (simp add: fg_colors_def example_tie_cells_def)
  show ?thesis by (intro conjI) (rule a b c d e)+
qed
section \<open>The modifier test \<open>ctrl_is_down\<close>\<close>

text \<open>
  C9, as stated, fails at \<open>mods = 0\<close>: there \<open>(mods - 1) & 4\<close> is \<open>-1 & 4 = 4\<close>, so the
  stated right-hand side is true, but the code guards the off-by-one rule with
  \<open>mods > 0\<close> and answers False.
\<close>

theorem ctrl_is_down_zero_counterexample:
  "\<not> (ctrl_is_down 0 4 \<longleftrightarrow> ((0::int) AND 4 \<noteq> 0 \<or> ((0::int) - 1) AND 4 \<noteq> 0))"
  by (simp add: ctrl_is_down_def)

text \<open>
  C9 (amended): for every positive \<open>mods\<close> and every mask, \<open>ctrl_is_down mods mask\<close> is true
  exactly when \<open>mods & mask\<close> is non-zero or \<open>(mods - 1) & 4\<close> is non-zero; for \<open>mods = 0\<close>
  it is false whatever the mask. In particular it is true for \<open>mods = 5\<close> with mask 4 and
  false for \<open>mods = 1\<close> with mask 4 (for \<open>mods = 1\<close> it is true exactly when the mask has
  bit 0 set).
\<close>

theorem ctrl_is_down_spec:
  "(0 < m \<longrightarrow>
      ctrl_is_down m cmask = (m AND cmask \<noteq> 0 \<or> (m - 1) AND 4 \<noteq> 0))
   \<and> \<not> ctrl_is_down 0 cmask
   \<and> ctrl_is_down 5 4
   \<and> \<not> ctrl_is_down 1 4
   \<and> ctrl_is_down 1 cmask = (cmask AND 1 \<noteq> 0)"
  by (simp add: ctrl_is_down_def and.commute)

theorem ctrl_is_down_spec_witness:
  "(0::int) < 5 \<and> ctrl_is_down 5 4 = ((5::int) AND 4 \<noteq> 0 \<or> ((5::int) - 1) AND 4 \<noteq> 0)"
  using ctrl_is_down_spec [of 5 4] by simp

end
